theory Spec2Isabelle
  imports Main "HOL-Library.Word"
begin

unbundle bit_operations_syntax

section \<open>Bytes, typed arrays and JavaScript strings\<close>

text \<open>
  The encryption core of the notes application lives in
  \<^verbatim>\<open>frontend/src/utils/cryptoNotes.ts\<close>. Its five functions (\<^verbatim>\<open>deriveKey\<close>,
  \<^verbatim>\<open>encryptContent\<close>, \<^verbatim>\<open>decryptContent\<close>, \<^verbatim>\<open>encryptImage\<close>, \<^verbatim>\<open>decryptImage\<close>) and the
  helper \<^verbatim>\<open>toConcreteUint8Array\<close> are embedded below, on top of a model of the browser
  interfaces they call: \<^verbatim>\<open>TextEncoder\<close>/\<^verbatim>\<open>TextDecoder\<close> (WHATWG Encoding), \<^verbatim>\<open>btoa\<close>/\<^verbatim>\<open>atob\<close>
  (HTML, forgiving base64), \<^verbatim>\<open>crypto.getRandomValues\<close> and \<^verbatim>\<open>crypto.subtle\<close> (W3C Web
  Cryptography: PBKDF2 of RFC 8018 over HMAC of RFC 2104 over SHA-256 of FIPS 180-4, and
  AES-GCM of NIST SP 800-38D over AES of FIPS 197).

  A byte is an 8-bit word, the contents of a \<^verbatim>\<open>Uint8Array\<close> a list of bytes, and a
  JavaScript string a list of UTF-16 code units. The interfaces are modelled as their
  standards define them. Of the limits that an engine sets where the standards set
  none, the model has the one that the program meets first: the number of arguments
  that a call can pass, which bounds the spread call
  \<^verbatim>\<open>String.fromCharCode(...combined)\<close> of \<^verbatim>\<open>encryptContent\<close>. It is a parameter of the
  model, \<open>max_arguments\<close>. The limits on memory and on the length of a string or of a
  typed array lie far above it in every engine and are not modelled.
\<close>

type_synonym byte = "8 word"
type_synonym bytes = "byte list"
type_synonym js_string = "16 word list"

text \<open>Big-endian conversion between byte strings and machine words.\<close>

definition be_word :: "bytes \<Rightarrow> 'a::len word" where
  "be_word bs = foldl (\<lambda>acc b. push_bit 8 acc OR ucast b) 0 bs"

definition word_be :: "nat \<Rightarrow> 'a::len word \<Rightarrow> bytes" where
  "word_be n w = map (\<lambda>i. ucast (drop_bit (8 * (n - 1 - i)) w)) [0..<n]"

definition xor_bytes :: "bytes \<Rightarrow> bytes \<Rightarrow> bytes" where
  "xor_bytes xs ys = map2 (XOR) xs ys"

text \<open>Cutting a byte string into consecutive blocks of \<open>n\<close> bytes (the last may be short).\<close>

function chunks :: "nat \<Rightarrow> 'a list \<Rightarrow> 'a list list" where
  "chunks n xs = (if n = 0 \<or> xs = [] then [] else take n xs # chunks n (drop n xs))"
  by pat_completeness auto
termination
  by (relation "measure (\<lambda>(n, xs). length xs)") auto

declare chunks.simps [simp del]

section \<open>SHA-256 (FIPS 180-4)\<close>

definition sha256_K :: "32 word list" where
  "sha256_K =
    [0x428A2F98, 0x71374491, 0xB5C0FBCF, 0xE9B5DBA5, 0x3956C25B, 0x59F111F1, 0x923F82A4, 0xAB1C5ED5,
     0xD807AA98, 0x12835B01, 0x243185BE, 0x550C7DC3, 0x72BE5D74, 0x80DEB1FE, 0x9BDC06A7, 0xC19BF174,
     0xE49B69C1, 0xEFBE4786, 0x0FC19DC6, 0x240CA1CC, 0x2DE92C6F, 0x4A7484AA, 0x5CB0A9DC, 0x76F988DA,
     0x983E5152, 0xA831C66D, 0xB00327C8, 0xBF597FC7, 0xC6E00BF3, 0xD5A79147, 0x06CA6351, 0x14292967,
     0x27B70A85, 0x2E1B2138, 0x4D2C6DFC, 0x53380D13, 0x650A7354, 0x766A0ABB, 0x81C2C92E, 0x92722C85,
     0xA2BFE8A1, 0xA81A664B, 0xC24B8B70, 0xC76C51A3, 0xD192E819, 0xD6990624, 0xF40E3585, 0x106AA070,
     0x19A4C116, 0x1E376C08, 0x2748774C, 0x34B0BCB5, 0x391C0CB3, 0x4ED8AA4A, 0x5B9CCA4F, 0x682E6FF3,
     0x748F82EE, 0x78A5636F, 0x84C87814, 0x8CC70208, 0x90BEFFFA, 0xA4506CEB, 0xBEF9A3F7, 0xC67178F2]"

type_synonym sha256_state =
  "32 word \<times> 32 word \<times> 32 word \<times> 32 word \<times> 32 word \<times> 32 word \<times> 32 word \<times> 32 word"

definition sha256_H0 :: sha256_state where
  "sha256_H0 = (0x6A09E667, 0xBB67AE85, 0x3C6EF372, 0xA54FF53A,
                0x510E527F, 0x9B05688C, 0x1F83D9AB, 0x5BE0CD19)"

definition sha_Ch :: "32 word \<Rightarrow> 32 word \<Rightarrow> 32 word \<Rightarrow> 32 word" where
  "sha_Ch x y z = (x AND y) XOR (NOT x AND z)"

definition sha_Maj :: "32 word \<Rightarrow> 32 word \<Rightarrow> 32 word \<Rightarrow> 32 word" where
  "sha_Maj x y z = (x AND y) XOR (x AND z) XOR (y AND z)"

definition sha_Sigma0 :: "32 word \<Rightarrow> 32 word" where
  "sha_Sigma0 x = word_rotr 2 x XOR word_rotr 13 x XOR word_rotr 22 x"

definition sha_Sigma1 :: "32 word \<Rightarrow> 32 word" where
  "sha_Sigma1 x = word_rotr 6 x XOR word_rotr 11 x XOR word_rotr 25 x"

definition sha_sigma0 :: "32 word \<Rightarrow> 32 word" where
  "sha_sigma0 x = word_rotr 7 x XOR word_rotr 18 x XOR drop_bit 3 x"

definition sha_sigma1 :: "32 word \<Rightarrow> 32 word" where
  "sha_sigma1 x = word_rotr 17 x XOR word_rotr 19 x XOR drop_bit 10 x"

text \<open>Padding: a one bit, zeros, and the message length in bits as a 64-bit number.\<close>

definition sha256_pad :: "bytes \<Rightarrow> bytes" where
  "sha256_pad m =
     m @ [0x80] @ replicate ((64 - (length m + 9) mod 64) mod 64) 0
       @ word_be 8 (of_nat (8 * length m) :: 64 word)"

text \<open>The message schedule: \<open>n\<close> further words appended to the sixteen of the block.\<close>

fun sha256_schedule :: "nat \<Rightarrow> 32 word list \<Rightarrow> 32 word list" where
  "sha256_schedule 0 w = w"
| "sha256_schedule (Suc n) w =
     sha256_schedule n
       (w @ [sha_sigma1 (w ! (length w - 2)) + w ! (length w - 7)
             + sha_sigma0 (w ! (length w - 15)) + w ! (length w - 16)])"

definition sha256_round :: "sha256_state \<Rightarrow> 32 word \<times> 32 word \<Rightarrow> sha256_state" where
  "sha256_round s kw =
     (case s of (a, b, c, d, e, f, g, h) \<Rightarrow>
        (let t1 = h + sha_Sigma1 e + sha_Ch e f g + fst kw + snd kw;
             t2 = sha_Sigma0 a + sha_Maj a b c
         in (t1 + t2, a, b, c, d + t1, e, f, g)))"

definition sha256_compress :: "sha256_state \<Rightarrow> bytes \<Rightarrow> sha256_state" where
  "sha256_compress s block =
     (let w = sha256_schedule 48 (map be_word (chunks 4 block))
      in case (s, foldl sha256_round s (zip sha256_K w)) of
           ((a, b, c, d, e, f, g, h), (a', b', c', d', e', f', g', h')) \<Rightarrow>
             (a + a', b + b', c + c', d + d', e + e', f + f', g + g', h + h'))"

definition sha256_digest :: "sha256_state \<Rightarrow> bytes" where
  "sha256_digest s =
     (case s of (a, b, c, d, e, f, g, h) \<Rightarrow>
        word_be 4 a @ word_be 4 b @ word_be 4 c @ word_be 4 d
        @ word_be 4 e @ word_be 4 f @ word_be 4 g @ word_be 4 h)"

definition sha256 :: "bytes \<Rightarrow> bytes" where
  "sha256 m = sha256_digest (foldl sha256_compress sha256_H0 (chunks 64 (sha256_pad m)))"

section \<open>HMAC (RFC 2104) and PBKDF2 (RFC 8018)\<close>

text \<open>
  HMAC over a hash \<open>h\<close> with block size \<open>B\<close>: a key longer than a block is hashed first,
  and the key is then filled with zero bytes up to the block size.
\<close>

definition hmac_key_block :: "(bytes \<Rightarrow> bytes) \<Rightarrow> nat \<Rightarrow> bytes \<Rightarrow> bytes" where
  "hmac_key_block h B k =
     (let k' = (if length k > B then h k else k) in k' @ replicate (B - length k') 0)"

definition hmac :: "(bytes \<Rightarrow> bytes) \<Rightarrow> nat \<Rightarrow> bytes \<Rightarrow> bytes \<Rightarrow> bytes" where
  "hmac h B k m =
     (let kb = hmac_key_block h B k
      in h (map (\<lambda>b. b XOR 0x5c) kb @ h (map (\<lambda>b. b XOR 0x36) kb @ m)))"

definition hmac_sha256 :: "bytes \<Rightarrow> bytes \<Rightarrow> bytes" where
  "hmac_sha256 = hmac sha256 64"

text \<open>
  PBKDF2: block \<open>i\<close> of the output is \<open>U\<^sub>1 XOR ... XOR U\<^sub>c\<close> with
  \<open>U\<^sub>1 = PRF (P, S || INT i)\<close> and \<open>U\<^sub>j = PRF (P, U\<^sub>j\<^sub>-\<^sub>1)\<close>.
\<close>

fun pbkdf2_iter :: "(bytes \<Rightarrow> bytes \<Rightarrow> bytes) \<Rightarrow> bytes \<Rightarrow> nat \<Rightarrow> bytes \<Rightarrow> bytes \<Rightarrow> bytes" where
  "pbkdf2_iter prf p 0 u acc = acc"
| "pbkdf2_iter prf p (Suc n) u acc =
     (let u' = prf p u in pbkdf2_iter prf p n u' (xor_bytes acc u'))"

definition pbkdf2_F :: "(bytes \<Rightarrow> bytes \<Rightarrow> bytes) \<Rightarrow> bytes \<Rightarrow> bytes \<Rightarrow> nat \<Rightarrow> nat \<Rightarrow> bytes" where
  "pbkdf2_F prf p s c i =
     (let u1 = prf p (s @ word_be 4 (of_nat i :: 32 word)) in pbkdf2_iter prf p (c - 1) u1 u1)"

definition pbkdf2 ::
  "(bytes \<Rightarrow> bytes \<Rightarrow> bytes) \<Rightarrow> nat \<Rightarrow> bytes \<Rightarrow> bytes \<Rightarrow> nat \<Rightarrow> nat \<Rightarrow> bytes" where
  "pbkdf2 prf hLen p s c dkLen =
     take dkLen (concat (map (pbkdf2_F prf p s c) [1..<Suc ((dkLen + hLen - 1) div hLen)]))"

section \<open>AES (FIPS 197)\<close>

definition aes_sbox :: "byte list" where
  "aes_sbox =
    [0x63, 0x7c, 0x77, 0x7b, 0xf2, 0x6b, 0x6f, 0xc5, 0x30, 0x01, 0x67, 0x2b, 0xfe, 0xd7, 0xab, 0x76,
     0xca, 0x82, 0xc9, 0x7d, 0xfa, 0x59, 0x47, 0xf0, 0xad, 0xd4, 0xa2, 0xaf, 0x9c, 0xa4, 0x72, 0xc0,
     0xb7, 0xfd, 0x93, 0x26, 0x36, 0x3f, 0xf7, 0xcc, 0x34, 0xa5, 0xe5, 0xf1, 0x71, 0xd8, 0x31, 0x15,
     0x04, 0xc7, 0x23, 0xc3, 0x18, 0x96, 0x05, 0x9a, 0x07, 0x12, 0x80, 0xe2, 0xeb, 0x27, 0xb2, 0x75,
     0x09, 0x83, 0x2c, 0x1a, 0x1b, 0x6e, 0x5a, 0xa0, 0x52, 0x3b, 0xd6, 0xb3, 0x29, 0xe3, 0x2f, 0x84,
     0x53, 0xd1, 0x00, 0xed, 0x20, 0xfc, 0xb1, 0x5b, 0x6a, 0xcb, 0xbe, 0x39, 0x4a, 0x4c, 0x58, 0xcf,
     0xd0, 0xef, 0xaa, 0xfb, 0x43, 0x4d, 0x33, 0x85, 0x45, 0xf9, 0x02, 0x7f, 0x50, 0x3c, 0x9f, 0xa8,
     0x51, 0xa3, 0x40, 0x8f, 0x92, 0x9d, 0x38, 0xf5, 0xbc, 0xb6, 0xda, 0x21, 0x10, 0xff, 0xf3, 0xd2,
     0xcd, 0x0c, 0x13, 0xec, 0x5f, 0x97, 0x44, 0x17, 0xc4, 0xa7, 0x7e, 0x3d, 0x64, 0x5d, 0x19, 0x73,
     0x60, 0x81, 0x4f, 0xdc, 0x22, 0x2a, 0x90, 0x88, 0x46, 0xee, 0xb8, 0x14, 0xde, 0x5e, 0x0b, 0xdb,
     0xe0, 0x32, 0x3a, 0x0a, 0x49, 0x06, 0x24, 0x5c, 0xc2, 0xd3, 0xac, 0x62, 0x91, 0x95, 0xe4, 0x79,
     0xe7, 0xc8, 0x37, 0x6d, 0x8d, 0xd5, 0x4e, 0xa9, 0x6c, 0x56, 0xf4, 0xea, 0x65, 0x7a, 0xae, 0x08,
     0xba, 0x78, 0x25, 0x2e, 0x1c, 0xa6, 0xb4, 0xc6, 0xe8, 0xdd, 0x74, 0x1f, 0x4b, 0xbd, 0x8b, 0x8a,
     0x70, 0x3e, 0xb5, 0x66, 0x48, 0x03, 0xf6, 0x0e, 0x61, 0x35, 0x57, 0xb9, 0x86, 0xc1, 0x1d, 0x9e,
     0xe1, 0xf8, 0x98, 0x11, 0x69, 0xd9, 0x8e, 0x94, 0x9b, 0x1e, 0x87, 0xe9, 0xce, 0x55, 0x28, 0xdf,
     0x8c, 0xa1, 0x89, 0x0d, 0xbf, 0xe6, 0x42, 0x68, 0x41, 0x99, 0x2d, 0x0f, 0xb0, 0x54, 0xbb, 0x16]"

definition sub_byte :: "byte \<Rightarrow> byte" where
  "sub_byte b = aes_sbox ! unat b"

text \<open>Multiplication by \<open>x\<close> in the AES field, modulo \<open>x\<^sup>8 + x\<^sup>4 + x\<^sup>3 + x + 1\<close>.\<close>

definition xtime :: "byte \<Rightarrow> byte" where
  "xtime b = push_bit 1 b XOR (if bit b 7 then 0x1b else 0)"

text \<open>
  The state is kept in input order: byte \<open>i\<close> is row \<open>i mod 4\<close> of column \<open>i div 4\<close>.
\<close>

definition sub_bytes :: "bytes \<Rightarrow> bytes" where
  "sub_bytes s = map sub_byte s"

definition shift_rows :: "bytes \<Rightarrow> bytes" where
  "shift_rows s = map (\<lambda>i. s ! (i mod 4 + 4 * ((i div 4 + i mod 4) mod 4))) [0..<16]"

definition mix_column :: "bytes \<Rightarrow> bytes" where
  "mix_column col =
     (case col of
        [a, b, c, d] \<Rightarrow>
          [xtime a XOR (xtime b XOR b) XOR c XOR d,
           a XOR xtime b XOR (xtime c XOR c) XOR d,
           a XOR b XOR xtime c XOR (xtime d XOR d),
           (xtime a XOR a) XOR b XOR c XOR xtime d]
      | _ \<Rightarrow> col)"

definition mix_columns :: "bytes \<Rightarrow> bytes" where
  "mix_columns s = concat (map mix_column (chunks 4 s))"

definition aes_rcon :: "nat \<Rightarrow> bytes" where
  "aes_rcon j = [(xtime ^^ (j - 1)) 1, 0, 0, 0]"

text \<open>
  Key expansion for a key of \<open>nk\<close> four-byte words: \<open>n\<close> further words are appended to
  the words of the key.
\<close>

fun aes_expand :: "nat \<Rightarrow> nat \<Rightarrow> bytes list \<Rightarrow> bytes list" where
  "aes_expand nk 0 w = w"
| "aes_expand nk (Suc n) w =
     (let i = length w;
          temp = last w;
          temp' = (if i mod nk = 0 then xor_bytes (map sub_byte (rotate1 temp)) (aes_rcon (i div nk))
                   else if nk > 6 \<and> i mod nk = 4 then map sub_byte temp
                   else temp)
      in aes_expand nk n (w @ [xor_bytes (w ! (i - nk)) temp']))"

definition aes_key_schedule :: "bytes \<Rightarrow> bytes list" where
  "aes_key_schedule key =
     (let nk = length key div 4; nr = nk + 6
      in map concat (chunks 4 (aes_expand nk (4 * (nr + 1) - nk) (chunks 4 key))))"

definition aes_cipher :: "bytes list \<Rightarrow> bytes \<Rightarrow> bytes" where
  "aes_cipher rks input =
     (let s0 = xor_bytes input (hd rks);
          s1 = foldl (\<lambda>s rk. xor_bytes (mix_columns (shift_rows (sub_bytes s))) rk)
                 s0 (butlast (tl rks))
      in xor_bytes (shift_rows (sub_bytes s1)) (last rks))"

text \<open>The forward cipher function \<open>CIPH\<^sub>K\<close> on 128-bit blocks.\<close>

definition aes_encrypt_block :: "bytes \<Rightarrow> 128 word \<Rightarrow> 128 word" where
  "aes_encrypt_block key x = be_word (aes_cipher (aes_key_schedule key) (word_be 16 x))"

section \<open>Galois/Counter Mode (NIST SP 800-38D)\<close>

text \<open>
  Multiplication of blocks: bit 0 of a block is its leftmost bit, so the loop walks the
  bits of \<open>x\<close> from the most significant down, and \<open>v\<close> is multiplied by the field's
  generator at each step (a right shift, reduced by \<open>R = 11100001 || 0\<^sup>1\<^sup>2\<^sup>0\<close>).
\<close>

fun gf128_mul_loop :: "nat \<Rightarrow> 128 word \<Rightarrow> 128 word \<Rightarrow> 128 word \<Rightarrow> 128 word" where
  "gf128_mul_loop 0 x z v = z"
| "gf128_mul_loop (Suc n) x z v =
     gf128_mul_loop n x (if bit x n then z XOR v else z)
       (if bit v 0 then drop_bit 1 v XOR push_bit 120 0xE1 else drop_bit 1 v)"

definition gf128_mul :: "128 word \<Rightarrow> 128 word \<Rightarrow> 128 word" where
  "gf128_mul x y = gf128_mul_loop 128 x 0 y"

definition ghash :: "128 word \<Rightarrow> bytes \<Rightarrow> 128 word" where
  "ghash h bs = foldl (\<lambda>y blk. gf128_mul (y XOR be_word blk) h) 0 (chunks 16 bs)"

definition pad16 :: "bytes \<Rightarrow> bytes" where
  "pad16 bs = bs @ replicate ((16 - length bs mod 16) mod 16) 0"

definition inc32 :: "128 word \<Rightarrow> 128 word" where
  "inc32 x = (x AND NOT 0xFFFFFFFF) OR ((x + 1) AND 0xFFFFFFFF)"

definition gcm_keystream :: "bytes \<Rightarrow> 128 word \<Rightarrow> nat \<Rightarrow> bytes" where
  "gcm_keystream key icb n =
     concat (map (\<lambda>i. word_be 16 (aes_encrypt_block key ((inc32 ^^ i) icb)))
                 [0..<(n + 15) div 16])"

definition gctr :: "bytes \<Rightarrow> 128 word \<Rightarrow> bytes \<Rightarrow> bytes" where
  "gctr key icb xs = xor_bytes xs (gcm_keystream key icb (length xs))"

definition gcm_J0 :: "128 word \<Rightarrow> bytes \<Rightarrow> 128 word" where
  "gcm_J0 h iv =
     (if length iv = 12 then be_word (iv @ [0, 0, 0, 1])
      else ghash h (pad16 iv @ replicate 8 0 @ word_be 8 (of_nat (8 * length iv) :: 64 word)))"

text \<open>The tag of \<open>tlen\<close> bytes over additional data \<open>a\<close> and ciphertext \<open>c\<close>.\<close>

definition gcm_tag :: "bytes \<Rightarrow> bytes \<Rightarrow> bytes \<Rightarrow> bytes \<Rightarrow> nat \<Rightarrow> bytes" where
  "gcm_tag key iv a c tlen =
     (let h = aes_encrypt_block key 0;
          s = ghash h (pad16 a @ pad16 c
                       @ word_be 8 (of_nat (8 * length a) :: 64 word)
                       @ word_be 8 (of_nat (8 * length c) :: 64 word))
      in take tlen (gctr key (gcm_J0 h iv) (word_be 16 s)))"

definition gcm_ae :: "bytes \<Rightarrow> bytes \<Rightarrow> bytes \<Rightarrow> bytes \<Rightarrow> nat \<Rightarrow> bytes \<times> bytes" where
  "gcm_ae key iv p a tlen =
     (let c = gctr key (inc32 (gcm_J0 (aes_encrypt_block key 0) iv)) p
      in (c, gcm_tag key iv a c tlen))"

text \<open>Authenticated decryption: \<open>None\<close> is the FAIL indication of the standard.\<close>

definition gcm_ad :: "bytes \<Rightarrow> bytes \<Rightarrow> bytes \<Rightarrow> bytes \<Rightarrow> bytes \<Rightarrow> bytes option" where
  "gcm_ad key iv c a t =
     (if gcm_tag key iv a c (length t) = t
      then Some (gctr key (inc32 (gcm_J0 (aes_encrypt_block key 0) iv)) c)
      else None)"

section \<open>The browser interfaces\<close>

subsection \<open>Exceptions\<close>

text \<open>
  A rejected promise or a thrown exception is a value: a \<^verbatim>\<open>DOMException\<close> with its
  name, a \<^verbatim>\<open>RangeError\<close>, or a plain \<^verbatim>\<open>Error\<close> with its message. An \<^verbatim>\<open>async\<close>
  function returns \<open>Inl\<close> of the exception it rejects with, or \<open>Inr\<close> of its result.
\<close>

datatype dom_exception_name =
  SyntaxError | InvalidAccessError | OperationError | DataError | InvalidCharacterError

datatype js_exn = DOMException dom_exception_name | RangeError | Error string

subsection \<open>Typed arrays\<close>

datatype buffer_kind = ArrayBuffer | SharedArrayBuffer

record u8array =
  buffer :: buffer_kind
  elems :: bytes

definition new_Uint8Array :: "nat \<Rightarrow> u8array" where
  "new_Uint8Array n = \<lparr>buffer = ArrayBuffer, elems = replicate n 0\<rparr>"

text \<open>\<^verbatim>\<open>new Uint8Array(arrayBuffer)\<close>: a view on the bytes of an \<^verbatim>\<open>ArrayBuffer\<close>.\<close>

definition Uint8Array_of :: "bytes \<Rightarrow> u8array" where
  "Uint8Array_of bs = \<lparr>buffer = ArrayBuffer, elems = bs\<rparr>"

text \<open>
  \<^verbatim>\<open>target.set(source, offset)\<close> copies the source into the target at the offset and
  throws a \<^verbatim>\<open>RangeError\<close> when the source does not fit.
\<close>

definition u8_set :: "u8array \<Rightarrow> u8array \<Rightarrow> nat \<Rightarrow> js_exn + u8array" where
  "u8_set target source offset =
     (if length (elems source) + offset > length (elems target) then Inl RangeError
      else Inr (target\<lparr>elems := take offset (elems target) @ elems source
                                 @ drop (offset + length (elems source)) (elems target)\<rparr>))"

text \<open>
  \<^verbatim>\<open>arr.slice(start, end)\<close>: relative indices (negative ones count from the end) are
  clamped to the array; the result is a fresh array on a fresh \<^verbatim>\<open>ArrayBuffer\<close>. It
  never throws: out of range it returns fewer elements.
\<close>

definition relative_index :: "int \<Rightarrow> int \<Rightarrow> int" where
  "relative_index len i = (if i < 0 then max (len + i) 0 else min i len)"

definition u8_slice :: "u8array \<Rightarrow> int \<Rightarrow> int option \<Rightarrow> u8array" where
  "u8_slice arr start end =
     (let len = int (length (elems arr));
          k = relative_index len start;
          final = (case end of None \<Rightarrow> len | Some e \<Rightarrow> relative_index len e);
          count = max (final - k) 0
      in \<lparr>buffer = ArrayBuffer, elems = take (nat count) (drop (nat k) (elems arr))\<rparr>)"

subsection \<open>The secure random source\<close>

text \<open>
  The state of \<^verbatim>\<open>crypto.getRandomValues\<close> is the sequence of bytes it is going to
  produce. A call fills the given array from the front of the sequence and leaves the
  rest for later calls. (The quota of 65536 bytes per call is not modelled: the
  program asks for 16 and for 12 bytes.)
\<close>

type_synonym rng = "nat \<Rightarrow> byte"

definition getRandomValues :: "u8array \<Rightarrow> rng \<Rightarrow> u8array \<times> rng" where
  "getRandomValues arr r =
     (arr\<lparr>elems := map r [0..<length (elems arr)]\<rparr>, \<lambda>i. r (length (elems arr) + i))"

subsection \<open>TextEncoder and TextDecoder\<close>

text \<open>
  \<^verbatim>\<open>TextEncoder.encode\<close> takes a \<^verbatim>\<open>USVString\<close>: the code units are read as scalar
  values, a surrogate pair as one value and a lone surrogate as U+FFFD, and each scalar
  value is encoded in UTF-8.
\<close>

definition is_lead_surrogate :: "16 word \<Rightarrow> bool" where
  "is_lead_surrogate c = (0xD800 \<le> unat c \<and> unat c \<le> 0xDBFF)"

definition is_trail_surrogate :: "16 word \<Rightarrow> bool" where
  "is_trail_surrogate c = (0xDC00 \<le> unat c \<and> unat c \<le> 0xDFFF)"

fun scalar_values :: "js_string \<Rightarrow> nat list" where
  "scalar_values [] = []"
| "scalar_values [c] =
     [if is_lead_surrogate c \<or> is_trail_surrogate c then 0xFFFD else unat c]"
| "scalar_values (c # d # cs) =
     (if is_lead_surrogate c \<and> is_trail_surrogate d
        then (0x10000 + (unat c - 0xD800) * 0x400 + (unat d - 0xDC00)) # scalar_values cs
      else if is_lead_surrogate c \<or> is_trail_surrogate c
        then 0xFFFD # scalar_values (d # cs)
      else unat c # scalar_values (d # cs))"

definition utf8_encode_scalar :: "nat \<Rightarrow> bytes" where
  "utf8_encode_scalar cp =
     (if cp \<le> 0x7F then [of_nat cp]
      else if cp \<le> 0x7FF then
        [of_nat (cp div 64 + 0xC0), of_nat (0x80 + cp mod 64)]
      else if cp \<le> 0xFFFF then
        [of_nat (cp div 4096 + 0xE0), of_nat (0x80 + cp div 64 mod 64), of_nat (0x80 + cp mod 64)]
      else
        [of_nat (cp div 262144 + 0xF0), of_nat (0x80 + cp div 4096 mod 64),
         of_nat (0x80 + cp div 64 mod 64), of_nat (0x80 + cp mod 64)])"

definition TextEncoder_encode :: "js_string \<Rightarrow> u8array" where
  "TextEncoder_encode s = Uint8Array_of (concat (map utf8_encode_scalar (scalar_values s)))"

text \<open>
  The UTF-8 decoder of the Encoding standard, in replacement mode (\<^verbatim>\<open>fatal\<close> is false
  in \<^verbatim>\<open>new TextDecoder()\<close>). Its state is the code point being assembled, the
  continuation bytes seen and needed, and the bounds of the next continuation byte. A
  byte that cannot continue a sequence yields U+FFFD and is read again as the start of
  a new sequence; a sequence cut off by the end of the input yields U+FFFD.
\<close>

function utf8_decode_run :: "nat \<Rightarrow> nat \<Rightarrow> nat \<Rightarrow> nat \<Rightarrow> nat \<Rightarrow> bytes \<Rightarrow> nat list" where
  "utf8_decode_run cp seen needed lower upper [] = (if needed \<noteq> 0 then [0xFFFD] else [])"
| "utf8_decode_run cp seen needed lower upper (b # bs) =
     (if needed = 0 then
        (if unat b \<le> 0x7F then unat b # utf8_decode_run cp seen needed lower upper bs
         else if 0xC2 \<le> unat b \<and> unat b \<le> 0xDF then
           utf8_decode_run (unat b mod 32) seen 1 lower upper bs
         else if 0xE0 \<le> unat b \<and> unat b \<le> 0xEF then
           utf8_decode_run (unat b mod 16) seen 2
             (if unat b = 0xE0 then 0xA0 else lower) (if unat b = 0xED then 0x9F else upper) bs
         else if 0xF0 \<le> unat b \<and> unat b \<le> 0xF4 then
           utf8_decode_run (unat b mod 8) seen 3
             (if unat b = 0xF0 then 0x90 else lower) (if unat b = 0xF4 then 0x8F else upper) bs
         else 0xFFFD # utf8_decode_run cp seen needed lower upper bs)
      else if \<not> (lower \<le> unat b \<and> unat b \<le> upper) then
        0xFFFD # utf8_decode_run 0 0 0 0x80 0xBF (b # bs)
      else if seen + 1 \<noteq> needed then
        utf8_decode_run (cp * 64 + unat b mod 64) (seen + 1) needed 0x80 0xBF bs
      else (cp * 64 + unat b mod 64) # utf8_decode_run 0 0 0 0x80 0xBF bs)"
  by pat_completeness auto
termination
  by (relation "measure (\<lambda>(cp, seen, needed, lower, upper, bs).
                  2 * length bs + (if needed = 0 then 0 else 1))") auto

definition utf16_of_scalar :: "nat \<Rightarrow> js_string" where
  "utf16_of_scalar cp =
     (if cp < 0x10000 then [of_nat cp]
      else [of_nat (0xD800 + (cp - 0x10000) div 0x400), of_nat (0xDC00 + (cp - 0x10000) mod 0x400)])"

text \<open>
  \<^verbatim>\<open>new TextDecoder().decode(bytes)\<close>: \<^verbatim>\<open>ignoreBOM\<close> is false, so a byte order mark
  U+FEFF at the very start of the decoded text is dropped.
\<close>

definition TextDecoder_decode :: "bytes \<Rightarrow> js_string" where
  "TextDecoder_decode bs =
     (let cps = utf8_decode_run 0 0 0 0x80 0xBF bs;
          cps' = (case cps of [] \<Rightarrow> [] | c # rest \<Rightarrow> if c = 0xFEFF then rest else cps)
      in concat (map utf16_of_scalar cps'))"

subsection \<open>btoa and atob\<close>

text \<open>The base64 alphabet: the character of a 6-bit value, and the value of a character.\<close>

definition b64_char :: "nat \<Rightarrow> 16 word" where
  "b64_char i =
     (if i < 26 then of_nat (0x41 + i)
      else if i < 52 then of_nat (0x61 + (i - 26))
      else if i < 62 then of_nat (0x30 + (i - 52))
      else if i = 62 then 0x2B
      else 0x2F)"

definition b64_value :: "16 word \<Rightarrow> nat option" where
  "b64_value c =
     (if 0x41 \<le> unat c \<and> unat c \<le> 0x5A then Some (unat c - 0x41)
      else if 0x61 \<le> unat c \<and> unat c \<le> 0x7A then Some (unat c - 0x61 + 26)
      else if 0x30 \<le> unat c \<and> unat c \<le> 0x39 then Some (unat c - 0x30 + 52)
      else if c = 0x2B then Some 62
      else if c = 0x2F then Some 63
      else None)"

fun b64_encode :: "bytes \<Rightarrow> js_string" where
  "b64_encode [] = []"
| "b64_encode [a] =
     [b64_char (unat a div 4), b64_char (unat a mod 4 * 16), 0x3D, 0x3D]"
| "b64_encode [a, b] =
     [b64_char (unat a div 4), b64_char (unat a mod 4 * 16 + unat b div 16),
      b64_char (unat b mod 16 * 4), 0x3D]"
| "b64_encode (a # b # c # bs) =
     [b64_char (unat a div 4), b64_char (unat a mod 4 * 16 + unat b div 16),
      b64_char (unat b mod 16 * 4 + unat c div 64), b64_char (unat c mod 64)] @ b64_encode bs"

text \<open>
  \<^verbatim>\<open>btoa\<close> takes a string of code units up to U+00FF and throws an
  \<^verbatim>\<open>InvalidCharacterError\<close> on any other.
\<close>

definition btoa :: "js_string \<Rightarrow> js_exn + js_string" where
  "btoa s =
     (if \<exists>c \<in> set s. unat c > 0xFF then Inl (DOMException InvalidCharacterError)
      else Inr (b64_encode (map ucast s)))"

text \<open>
  \<^verbatim>\<open>atob\<close> is the forgiving base64 decoder: ASCII whitespace is removed; if the length
  is then a multiple of four, one or two trailing \<^verbatim>\<open>=\<close> are removed; a length of one
  modulo four, or a character outside the alphabet, is an \<^verbatim>\<open>InvalidCharacterError\<close>;
  the 6-bit values are then packed into bytes, the bits left over being dropped.
\<close>

definition is_ascii_whitespace :: "16 word \<Rightarrow> bool" where
  "is_ascii_whitespace c = (c = 0x09 \<or> c = 0x0A \<or> c = 0x0C \<or> c = 0x0D \<or> c = 0x20)"

definition strip_padding :: "js_string \<Rightarrow> js_string" where
  "strip_padding d =
     (if d \<noteq> [] \<and> last d = 0x3D then
        (if butlast d \<noteq> [] \<and> last (butlast d) = 0x3D then butlast (butlast d) else butlast d)
      else d)"

fun b64_pack :: "nat list \<Rightarrow> bytes" where
  "b64_pack (a # b # c # d # vs) =
     [of_nat (a * 4 + b div 16), of_nat (b mod 16 * 16 + c div 4), of_nat (c mod 4 * 64 + d)]
     @ b64_pack vs"
| "b64_pack [a, b, c] = [of_nat (a * 4 + b div 16), of_nat (b mod 16 * 16 + c div 4)]"
| "b64_pack [a, b] = [of_nat (a * 4 + b div 16)]"
| "b64_pack _ = []"

definition atob :: "js_string \<Rightarrow> js_exn + js_string" where
  "atob s =
     (let d1 = filter (\<lambda>c. \<not> is_ascii_whitespace c) s;
          d2 = (if length d1 mod 4 = 0 then strip_padding d1 else d1)
      in if length d2 mod 4 = 1 then Inl (DOMException InvalidCharacterError)
         else if \<exists>c \<in> set d2. b64_value c = None then Inl (DOMException InvalidCharacterError)
         else Inr (map ucast (b64_pack (map (\<lambda>c. the (b64_value c)) d2))))"

text \<open>\<^verbatim>\<open>String.fromCharCode\<close> applied to bytes: one code unit per byte.\<close>

definition String_fromCharCode :: "bytes \<Rightarrow> js_string" where
  "String_fromCharCode bs = map ucast bs"

text \<open>
  The spread call \<^verbatim>\<open>String.fromCharCode(...bytes)\<close> passes every element of the array
  as one argument of the call. An engine takes a bounded number of arguments
  (\<open>max_arguments\<close>: 65536 in JavaScriptCore, some 120000 with the default stack of V8,
  500000 in SpiderMonkey) and throws a \<^verbatim>\<open>RangeError\<close>, before the function is entered,
  when the array has more elements.
\<close>

definition String_fromCharCode_spread :: "nat \<Rightarrow> bytes \<Rightarrow> js_exn + js_string" where
  "String_fromCharCode_spread max_arguments bs =
     (if max_arguments < length bs then Inl RangeError else Inr (String_fromCharCode bs))"

text \<open>
  \<^verbatim>\<open>Uint8Array.from(str, (c) => c.charCodeAt(0))\<close>: one element per character, its code
  unit reduced modulo 256.
\<close>

definition Uint8Array_from_string :: "js_string \<Rightarrow> u8array" where
  "Uint8Array_from_string s = Uint8Array_of (map ucast s)"

subsection \<open>crypto.subtle\<close>

text \<open>
  A \<^verbatim>\<open>CryptoKey\<close> with its internal slots; every key here is of type \<^verbatim>\<open>secret\<close>. The
  key material (the handle) is not readable by the program: it is part of the model
  only.
\<close>

datatype key_usage =
  Encrypt | Decrypt | Sign | Verify | DeriveKey | DeriveBits | WrapKey | UnwrapKey

datatype key_algorithm = PBKDF2 | AES_GCM nat

datatype hash_algorithm = SHA_256

record CryptoKey =
  extractable :: bool
  algorithm :: key_algorithm
  usages :: "key_usage list"
  handle :: bytes

text \<open>
  \<^verbatim>\<open>importKey('raw', keyData, {name: 'PBKDF2'}, extractable, usages)\<close>: only the
  derivation usages are allowed, the key must not be extractable, and a secret key
  needs at least one usage.
\<close>

definition subtle_importKey_raw_PBKDF2 ::
  "bytes \<Rightarrow> bool \<Rightarrow> key_usage list \<Rightarrow> js_exn + CryptoKey" where
  "subtle_importKey_raw_PBKDF2 keyData ext us =
     (if \<exists>u \<in> set us. u \<noteq> DeriveKey \<and> u \<noteq> DeriveBits then Inl (DOMException SyntaxError)
      else if ext then Inl (DOMException SyntaxError)
      else if us = [] then Inl (DOMException SyntaxError)
      else Inr \<lparr>extractable = ext, algorithm = PBKDF2, usages = us, handle = keyData\<rparr>)"

text \<open>
  \<^verbatim>\<open>importKey('raw', keyData, {name: 'AES-GCM'}, extractable, usages)\<close>, as the last
  step of \<^verbatim>\<open>deriveKey\<close> performs it on the derived bits.
\<close>

definition subtle_importKey_raw_AES_GCM ::
  "bytes \<Rightarrow> bool \<Rightarrow> key_usage list \<Rightarrow> js_exn + CryptoKey" where
  "subtle_importKey_raw_AES_GCM keyData ext us =
     (if \<exists>u \<in> set us. u \<noteq> Encrypt \<and> u \<noteq> Decrypt \<and> u \<noteq> WrapKey \<and> u \<noteq> UnwrapKey
        then Inl (DOMException SyntaxError)
      else if 8 * length keyData \<noteq> 128 \<and> 8 * length keyData \<noteq> 192 \<and> 8 * length keyData \<noteq> 256
        then Inl (DOMException DataError)
      else if us = [] then Inl (DOMException SyntaxError)
      else Inr \<lparr>extractable = ext, algorithm = AES_GCM (8 * length keyData), usages = us,
                handle = keyData\<rparr>)"

definition hash_prf :: "hash_algorithm \<Rightarrow> bytes \<Rightarrow> bytes \<Rightarrow> bytes" where
  "hash_prf h = (case h of SHA_256 \<Rightarrow> hmac_sha256)"

definition hash_length :: "hash_algorithm \<Rightarrow> nat" where
  "hash_length h = (case h of SHA_256 \<Rightarrow> 32)"

text \<open>
  The PBKDF2 bit derivation with parameters \<^verbatim>\<open>{name: 'PBKDF2', salt, iterations, hash}\<close>
  for \<open>len\<close> bits.
\<close>

definition subtle_deriveBits_PBKDF2 ::
  "bytes \<Rightarrow> nat \<Rightarrow> hash_algorithm \<Rightarrow> CryptoKey \<Rightarrow> nat \<Rightarrow> js_exn + bytes" where
  "subtle_deriveBits_PBKDF2 salt iterations h key len =
     (if len mod 8 \<noteq> 0 then Inl (DOMException OperationError)
      else if iterations = 0 then Inl (DOMException OperationError)
      else if len = 0 then Inr []
      else Inr (pbkdf2 (hash_prf h) (hash_length h) (handle key) salt iterations (len div 8)))"

text \<open>
  \<^verbatim>\<open>deriveKey({name: 'PBKDF2', salt, iterations, hash}, baseKey,
  {name: 'AES-GCM', length}, extractable, usages)\<close>: the base key must be a PBKDF2 key
  with the \<^verbatim>\<open>deriveKey\<close> usage, the length one of the AES key lengths; the derived
  bits are imported as a raw AES-GCM key.
\<close>

definition subtle_deriveKey_PBKDF2_AES_GCM ::
  "bytes \<Rightarrow> nat \<Rightarrow> hash_algorithm \<Rightarrow> CryptoKey \<Rightarrow> nat \<Rightarrow> bool \<Rightarrow> key_usage list
     \<Rightarrow> js_exn + CryptoKey" where
  "subtle_deriveKey_PBKDF2_AES_GCM salt iterations h baseKey len ext us =
     (if algorithm baseKey \<noteq> PBKDF2 then Inl (DOMException InvalidAccessError)
      else if DeriveKey \<notin> set (usages baseKey) then Inl (DOMException InvalidAccessError)
      else if len \<noteq> 128 \<and> len \<noteq> 192 \<and> len \<noteq> 256 then Inl (DOMException OperationError)
      else case subtle_deriveBits_PBKDF2 salt iterations h baseKey len of
             Inl e \<Rightarrow> Inl e
           | Inr secret \<Rightarrow> subtle_importKey_raw_AES_GCM secret ext us)"

text \<open>
  \<^verbatim>\<open>encrypt({name: 'AES-GCM', iv}, key, data)\<close>: no additional data, the default tag
  of 128 bits; the result is the ciphertext followed by the tag.
\<close>

definition is_AES_GCM :: "key_algorithm \<Rightarrow> bool" where
  "is_AES_GCM a = (case a of AES_GCM n \<Rightarrow> True | PBKDF2 \<Rightarrow> False)"

definition subtle_encrypt_AES_GCM :: "bytes \<Rightarrow> CryptoKey \<Rightarrow> bytes \<Rightarrow> js_exn + bytes" where
  "subtle_encrypt_AES_GCM iv key plaintext =
     (if \<not> is_AES_GCM (algorithm key) then Inl (DOMException InvalidAccessError)
      else if Encrypt \<notin> set (usages key) then Inl (DOMException InvalidAccessError)
      else if length plaintext > 2 ^ 39 - 256 then Inl (DOMException OperationError)
      else if length iv > 2 ^ 64 - 1 then Inl (DOMException OperationError)
      else case gcm_ae (handle key) iv plaintext [] 16 of (c, t) \<Rightarrow> Inr (c @ t))"

text \<open>
  \<^verbatim>\<open>decrypt({name: 'AES-GCM', iv}, key, data)\<close>: data shorter than the tag, and a tag
  that does not verify, are an \<^verbatim>\<open>OperationError\<close>.
\<close>

definition subtle_decrypt_AES_GCM :: "bytes \<Rightarrow> CryptoKey \<Rightarrow> bytes \<Rightarrow> js_exn + bytes" where
  "subtle_decrypt_AES_GCM iv key ciphertext =
     (if \<not> is_AES_GCM (algorithm key) then Inl (DOMException InvalidAccessError)
      else if Decrypt \<notin> set (usages key) then Inl (DOMException InvalidAccessError)
      else if length ciphertext < 16 then Inl (DOMException OperationError)
      else if length iv > 2 ^ 64 - 1 then Inl (DOMException OperationError)
      else case gcm_ad (handle key) iv (take (length ciphertext - 16) ciphertext) []
                  (drop (length ciphertext - 16) ciphertext) of
             None \<Rightarrow> Inl (DOMException OperationError)
           | Some plaintext \<Rightarrow> Inr plaintext)"

section \<open>The program: cryptoNotes.ts\<close>

definition toConcreteUint8Array :: "u8array \<Rightarrow> u8array" where
  "toConcreteUint8Array input =
     (if buffer input = ArrayBuffer then input
      else (let copy = new_Uint8Array (length (elems input))
            in case u8_set copy input 0 of Inr copy' \<Rightarrow> copy' | Inl e \<Rightarrow> copy))"

definition deriveKey :: "js_string \<Rightarrow> bytes \<Rightarrow> js_exn + CryptoKey" where
  "deriveKey password salt =
     (let passwordBuffer = TextEncoder_encode password
      in case subtle_importKey_raw_PBKDF2 (elems passwordBuffer) False [DeriveKey] of
           Inl e \<Rightarrow> Inl e
         | Inr importedKey \<Rightarrow>
             subtle_deriveKey_PBKDF2_AES_GCM salt 100000 SHA_256 importedKey 256 False
               [Encrypt, Decrypt])"

text \<open>
  The allocation of \<^verbatim>\<open>combined\<close> and the three \<^verbatim>\<open>combined.set\<close> calls that assemble
  the envelope: the same four statements stand in \<^verbatim>\<open>encryptContent\<close> and in
  \<^verbatim>\<open>encryptImage\<close>.
\<close>

definition combine :: "u8array \<Rightarrow> u8array \<Rightarrow> bytes \<Rightarrow> js_exn + u8array" where
  "combine salt iv encryptedData =
     (let combined = new_Uint8Array
                       (length (elems salt) + length (elems iv) + length encryptedData)
      in case u8_set combined salt 0 of
           Inl e \<Rightarrow> Inl e
         | Inr c1 \<Rightarrow>
             (case u8_set c1 iv (length (elems salt)) of
                Inl e \<Rightarrow> Inl e
              | Inr c2 \<Rightarrow>
                  u8_set c2 (Uint8Array_of encryptedData)
                    (length (elems salt) + length (elems iv))))"

text \<open>
  \<^verbatim>\<open>encryptContent\<close>. Its first argument here is the argument limit of the engine that
  runs it, for the spread call of its last line; the random source is passed through.
\<close>

definition encryptContent ::
  "nat \<Rightarrow> js_string \<Rightarrow> js_string \<Rightarrow> rng \<Rightarrow> (js_exn + js_string) \<times> rng" where
  "encryptContent max_arguments content password r =
     (let data = TextEncoder_encode content;
          (salt, r1) = getRandomValues (new_Uint8Array 16) r;
          (iv, r2) = getRandomValues (new_Uint8Array 12) r1
      in ((case deriveKey password (elems salt) of
             Inl e \<Rightarrow> Inl e
           | Inr key \<Rightarrow>
               (case subtle_encrypt_AES_GCM (elems iv) key (elems data) of
                  Inl e \<Rightarrow> Inl e
                | Inr encryptedData \<Rightarrow>
                    (case combine salt iv encryptedData of
                       Inl e \<Rightarrow> Inl e
                     | Inr combined \<Rightarrow>
                         (case String_fromCharCode_spread max_arguments (elems combined) of
                            Inl e \<Rightarrow> Inl e
                          | Inr binary \<Rightarrow> btoa binary)))),
          r2))"

text \<open>
  The \<^verbatim>\<open>try\<close> block of \<^verbatim>\<open>decryptContent\<close>, and the function itself: whatever the block
  throws, the \<^verbatim>\<open>catch\<close> clause throws a new \<^verbatim>\<open>Error\<close> with a fixed message instead.
\<close>

definition decryptContent_try :: "js_string \<Rightarrow> js_string \<Rightarrow> js_exn + js_string" where
  "decryptContent_try encryptedContent password =
     (case atob encryptedContent of
        Inl e \<Rightarrow> Inl e
      | Inr decoded \<Rightarrow>
          (let combined = Uint8Array_from_string decoded;
               salt = u8_slice combined 0 (Some 16);
               iv = u8_slice combined 16 (Some 28);
               encryptedData = u8_slice combined 28 None
           in case deriveKey password (elems salt) of
                Inl e \<Rightarrow> Inl e
              | Inr key \<Rightarrow>
                  (case subtle_decrypt_AES_GCM (elems iv) key (elems encryptedData) of
                     Inl e \<Rightarrow> Inl e
                   | Inr decryptedData \<Rightarrow> Inr (TextDecoder_decode decryptedData))))"

definition decryptContent :: "js_string \<Rightarrow> js_string \<Rightarrow> js_exn + js_string" where
  "decryptContent encryptedContent password =
     (case decryptContent_try encryptedContent password of
        Inl error \<Rightarrow> Inl (Error ''Decryption failed. Incorrect password or corrupted data.'')
      | Inr content \<Rightarrow> Inr content)"

definition encryptImage :: "u8array \<Rightarrow> js_string \<Rightarrow> rng \<Rightarrow> (js_exn + u8array) \<times> rng" where
  "encryptImage imageBytes password r =
     (let (salt, r1) = getRandomValues (new_Uint8Array 16) r;
          (iv, r2) = getRandomValues (new_Uint8Array 12) r1
      in ((case deriveKey password (elems salt) of
             Inl e \<Rightarrow> Inl e
           | Inr key \<Rightarrow>
               (let concreteBytes = toConcreteUint8Array imageBytes
                in case subtle_encrypt_AES_GCM (elems iv) key (elems concreteBytes) of
                     Inl e \<Rightarrow> Inl e
                   | Inr encryptedData \<Rightarrow> combine salt iv encryptedData)),
          r2))"

definition decryptImage_try :: "u8array \<Rightarrow> js_string \<Rightarrow> js_exn + u8array" where
  "decryptImage_try encryptedBytes password =
     (let salt = u8_slice encryptedBytes 0 (Some 16);
          iv = u8_slice encryptedBytes 16 (Some 28);
          encryptedData = u8_slice encryptedBytes 28 None
      in case deriveKey password (elems salt) of
           Inl e \<Rightarrow> Inl e
         | Inr key \<Rightarrow>
             (case subtle_decrypt_AES_GCM (elems iv) key
                     (elems (toConcreteUint8Array encryptedData)) of
                Inl e \<Rightarrow> Inl e
              | Inr decryptedData \<Rightarrow> Inr (Uint8Array_of decryptedData)))"

definition decryptImage :: "u8array \<Rightarrow> js_string \<Rightarrow> js_exn + u8array" where
  "decryptImage encryptedBytes password =
     (case decryptImage_try encryptedBytes password of
        Inl error \<Rightarrow>
          Inl (Error ''Image decryption failed. Incorrect password or corrupted data.'')
      | Inr bytes \<Rightarrow> Inr bytes)"

section \<open>Notions used in the statements\<close>

text \<open>
  The key material that \<^verbatim>\<open>deriveKey\<close> computes for a password and a salt, and the
  \<^verbatim>\<open>CryptoKey\<close> that holds it.
\<close>

definition password_key :: "js_string \<Rightarrow> bytes \<Rightarrow> bytes" where
  "password_key password salt =
     pbkdf2 hmac_sha256 32 (elems (TextEncoder_encode password)) salt 100000 32"

definition derived_key :: "js_string \<Rightarrow> bytes \<Rightarrow> CryptoKey" where
  "derived_key password salt =
     \<lparr>extractable = False, algorithm = AES_GCM 256, usages = [Encrypt, Decrypt],
      handle = password_key password salt\<rparr>"

text \<open>
  The salt and the nonce that an encrypt call draws from the random source, and the
  ciphertext with its tag that it then computes for a plaintext.
\<close>

definition drawn_salt :: "rng \<Rightarrow> bytes" where
  "drawn_salt r = map r [0..<16]"

definition drawn_iv :: "rng \<Rightarrow> bytes" where
  "drawn_iv r = map (\<lambda>i. r (16 + i)) [0..<12]"

definition sealed :: "js_string \<Rightarrow> rng \<Rightarrow> bytes \<Rightarrow> bytes" where
  "sealed password r plaintext =
     (case gcm_ae (password_key password (drawn_salt r)) (drawn_iv r) plaintext [] 16 of
        (c, t) \<Rightarrow> c @ t)"

text \<open>
  The layout of an envelope for a plaintext: salt, nonce, then a ciphertext as long as
  the plaintext and a tag of 16 bytes.
\<close>

definition envelope_layout :: "bytes \<Rightarrow> js_string \<Rightarrow> rng \<Rightarrow> bytes \<Rightarrow> bool" where
  "envelope_layout env password r plaintext =
     (case gcm_ae (password_key password (drawn_salt r)) (drawn_iv r) plaintext [] 16 of
        (c, t) \<Rightarrow>
          take 16 env = drawn_salt r \<and> take 12 (drop 16 env) = drawn_iv r
          \<and> drop 28 env = c @ t \<and> length c = length plaintext \<and> length t = 16
          \<and> length env = length plaintext + 44)"

text \<open>
  Whether the tag at the end of a ciphertext verifies under the key of a password, for
  the salt and nonce drawn from \<open>r\<close>.
\<close>

definition tag_verifies :: "js_string \<Rightarrow> rng \<Rightarrow> bytes \<Rightarrow> bool" where
  "tag_verifies password r ct =
     (gcm_tag (password_key password (drawn_salt r)) (drawn_iv r) []
        (take (length ct - 16) ct) 16 = drop (length ct - 16) ct)"

text \<open>
  Encrypting with one password and decrypting the result with another, as the
  properties of the specification compose the two operations.
\<close>

definition image_roundtrip ::
  "u8array \<Rightarrow> js_string \<Rightarrow> js_string \<Rightarrow> rng \<Rightarrow> js_exn + u8array" where
  "image_roundtrip imageBytes w1 w2 r =
     (case fst (encryptImage imageBytes w1 r) of
        Inl e \<Rightarrow> Inl e
      | Inr envelope \<Rightarrow> decryptImage envelope w2)"

definition text_roundtrip ::
  "nat \<Rightarrow> js_string \<Rightarrow> js_string \<Rightarrow> js_string \<Rightarrow> rng \<Rightarrow> js_exn + js_string" where
  "text_roundtrip max_arguments content w1 w2 r =
     (case fst (encryptContent max_arguments content w1 r) of
        Inl e \<Rightarrow> Inl e
      | Inr envelope \<Rightarrow> decryptContent envelope w2)"

text \<open>
  An image envelope, written in base64 as the text functions do, given to
  \<^verbatim>\<open>decryptContent\<close>.
\<close>

definition image_read_as_text :: "u8array \<Rightarrow> js_string \<Rightarrow> rng \<Rightarrow> js_exn + js_string" where
  "image_read_as_text imageBytes w r =
     (case fst (encryptImage imageBytes w r) of
        Inl e \<Rightarrow> Inl e
      | Inr envelope \<Rightarrow>
          (case btoa (String_fromCharCode (elems envelope)) of
             Inl e \<Rightarrow> Inl e
           | Inr s \<Rightarrow> decryptContent s w))"

text \<open>The \<^verbatim>\<open>name\<close> property of an exception, by which a caller tells the kinds apart.\<close>

definition exn_name :: "js_exn \<Rightarrow> string" where
  "exn_name e =
     (case e of
        DOMException SyntaxError \<Rightarrow> ''SyntaxError''
      | DOMException InvalidAccessError \<Rightarrow> ''InvalidAccessError''
      | DOMException OperationError \<Rightarrow> ''OperationError''
      | DOMException DataError \<Rightarrow> ''DataError''
      | DOMException InvalidCharacterError \<Rightarrow> ''InvalidCharacterError''
      | RangeError \<Rightarrow> ''RangeError''
      | Error message \<Rightarrow> ''Error'')"

text \<open>An ASCII literal as a JavaScript string, and a random source given by a list.\<close>

definition js_of_string :: "string \<Rightarrow> js_string" where
  "js_of_string s = map of_char s"

definition rng_of_list :: "bytes \<Rightarrow> rng" where
  "rng_of_list bs i = (if i < length bs then bs ! i else 0)"

text \<open>The base64 encoding without its padding, for the proofs about \<^verbatim>\<open>atob\<close>.\<close>

fun b64_body :: "bytes \<Rightarrow> js_string" where
  "b64_body [] = []"
| "b64_body [a] = [b64_char (unat a div 4), b64_char (unat a mod 4 * 16)]"
| "b64_body [a, b] =
     [b64_char (unat a div 4), b64_char (unat a mod 4 * 16 + unat b div 16),
      b64_char (unat b mod 16 * 4)]"
| "b64_body (a # b # c # bs) =
     [b64_char (unat a div 4), b64_char (unat a mod 4 * 16 + unat b div 16),
      b64_char (unat b mod 16 * 4 + unat c div 64), b64_char (unat c mod 64)] @ b64_body bs"

text \<open>
  Scalar values (code points that are not surrogates), and strings of UTF-16 code units
  without a lone surrogate.
\<close>

definition is_scalar :: "nat \<Rightarrow> bool" where
  "is_scalar cp = (cp < 0x110000 \<and> \<not> (0xD800 \<le> cp \<and> cp \<le> 0xDFFF))"

fun well_formed_utf16 :: "js_string \<Rightarrow> bool" where
  "well_formed_utf16 [] = True"
| "well_formed_utf16 [c] = (\<not> is_lead_surrogate c \<and> \<not> is_trail_surrogate c)"
| "well_formed_utf16 (c # d # cs) =
     (if is_lead_surrogate c \<and> is_trail_surrogate d then well_formed_utf16 cs
      else \<not> is_lead_surrogate c \<and> \<not> is_trail_surrogate c \<and> well_formed_utf16 (d # cs))"

section \<open>Properties of the interfaces and of the program\<close>

subsection \<open>Counter mode and the tag\<close>

lemma length_word_be [simp]: "length (word_be n w) = n"
  by (simp add: word_be_def)

lemma length_xor_bytes [simp]: "length (xor_bytes xs ys) = min (length xs) (length ys)"
  by (simp add: xor_bytes_def)

lemma xor_bytes_cancel:
  "length xs \<le> length ks \<Longrightarrow> xor_bytes (xor_bytes xs ks) ks = xs"
proof (induction xs arbitrary: ks)
  case Nil
  then show ?case by (simp add: xor_bytes_def)
next
  case (Cons x xs)
  then obtain k ks' where ks: "ks = k # ks'" by (cases ks) auto
  with Cons.prems have "length xs \<le> length ks'" by simp
  from Cons.IH [OF this] show ?case
    by (simp add: ks xor_bytes_def bit.xor_left_self xor.assoc)
qed

lemma length_concat_const:
  "(\<And>x. x \<in> set xs \<Longrightarrow> length (f x) = k) \<Longrightarrow> length (concat (map f xs)) = k * length xs"
  by (induction xs) auto

lemma length_gcm_keystream: "length (gcm_keystream key icb n) = 16 * ((n + 15) div 16)"
  unfolding gcm_keystream_def by (subst length_concat_const [where k = 16]) auto

lemma gcm_keystream_covers: "n \<le> length (gcm_keystream key icb n)"
  by (simp add: length_gcm_keystream)

lemma length_gctr [simp]: "length (gctr key icb xs) = length xs"
  using gcm_keystream_covers [of "length xs" key icb] by (simp add: gctr_def)

lemma gctr_involution: "gctr key icb (gctr key icb xs) = xs"
  using gcm_keystream_covers [of "length xs" key icb]
  by (simp add: gctr_def xor_bytes_cancel)

lemma length_gcm_tag: "tlen \<le> 16 \<Longrightarrow> length (gcm_tag key iv a c tlen) = tlen"
  by (simp add: gcm_tag_def Let_def)

lemma gcm_ae_lengths:
  "gcm_ae key iv p a 16 = (c, t) \<Longrightarrow> length c = length p \<and> length t = 16"
  by (auto simp: gcm_ae_def Let_def length_gcm_tag)

lemma gcm_ad_ae:
  assumes "gcm_ae key iv p a 16 = (c, t)"
  shows "gcm_ad key iv c a t = Some p"
proof -
  from assms have c: "c = gctr key (inc32 (gcm_J0 (aes_encrypt_block key 0) iv)) p"
    and t: "t = gcm_tag key iv a c 16"
    by (auto simp: gcm_ae_def Let_def)
  have "length t = 16" using t by (simp add: length_gcm_tag)
  then have "gcm_tag key iv a c (length t) = t" using t by simp
  then show ?thesis by (simp add: gcm_ad_def c gctr_involution)
qed

subsection \<open>The derived key\<close>

lemma length_sha256_digest: "length (sha256_digest s) = 32"
  by (simp add: sha256_digest_def split: prod.split)

lemma length_sha256 [simp]: "length (sha256 m) = 32"
  by (simp add: sha256_def length_sha256_digest)

lemma length_hmac_sha256 [simp]: "length (hmac_sha256 k m) = 32"
  by (simp add: hmac_sha256_def hmac_def Let_def)

lemma length_pbkdf2_iter:
  "(\<And>q u. length (prf q u) = n) \<Longrightarrow> length acc = n \<Longrightarrow>
   length (pbkdf2_iter prf p c u acc) = n"
  by (induction c arbitrary: u acc) (simp_all add: Let_def)

lemma length_pbkdf2_F:
  "(\<And>q u. length (prf q u) = n) \<Longrightarrow> length (pbkdf2_F prf p s c i) = n"
  by (simp add: pbkdf2_F_def Let_def length_pbkdf2_iter)

lemma length_pbkdf2:
  assumes len: "\<And>q u. length (prf q u) = hLen" and pos: "0 < hLen"
  shows "length (pbkdf2 prf hLen p s c dkLen) = dkLen"
proof -
  let ?l = "(dkLen + hLen - 1) div hLen"
  have "length (concat (map (pbkdf2_F prf p s c) [1..<Suc ?l])) = hLen * ?l"
    by (subst length_concat_const [where k = hLen]) (simp_all add: length_pbkdf2_F len)
  moreover have "dkLen \<le> hLen * ?l"
  proof -
    have "dkLen + hLen - 1 < hLen * ?l + hLen"
      using pos by (metis (no_types) add.commute dividend_less_times_div)
    then show ?thesis using pos by simp
  qed
  ultimately show ?thesis by (simp add: pbkdf2_def)
qed

lemma length_pbkdf2_hmac_sha256 [simp]:
  "length (pbkdf2 hmac_sha256 32 p s c dkLen) = dkLen"
  by (rule length_pbkdf2) simp_all

lemma deriveKey_value:
  "deriveKey password salt =
     Inr \<lparr>extractable = False, algorithm = AES_GCM 256, usages = [Encrypt, Decrypt],
          handle = pbkdf2 hmac_sha256 32 (elems (TextEncoder_encode password)) salt 100000 32\<rparr>"
  by (simp add: deriveKey_def subtle_importKey_raw_PBKDF2_def subtle_deriveKey_PBKDF2_AES_GCM_def
      subtle_deriveBits_PBKDF2_def subtle_importKey_raw_AES_GCM_def hash_prf_def hash_length_def)

subsection \<open>Typed arrays\<close>

lemma elems_slice_salt: "elems (u8_slice arr 0 (Some 16)) = take 16 (elems arr)"
  by (simp add: u8_slice_def relative_index_def Let_def min_def max_def)

lemma elems_slice_iv: "elems (u8_slice arr 16 (Some 28)) = take 12 (drop 16 (elems arr))"
proof (cases "28 \<le> length (elems arr)")
  case True
  then show ?thesis
    by (simp add: u8_slice_def relative_index_def Let_def min_def max_def)
next
  case False
  then show ?thesis
    by (cases "16 \<le> length (elems arr)")
      (auto simp: u8_slice_def relative_index_def Let_def min_def max_def nat_diff_distrib)
qed

lemma elems_slice_rest: "elems (u8_slice arr 28 None) = drop 28 (elems arr)"
  by (cases "28 \<le> length (elems arr)")
    (auto simp: u8_slice_def relative_index_def Let_def min_def max_def)

lemma buffer_slice [simp]: "buffer (u8_slice arr i e) = ArrayBuffer"
  by (simp add: u8_slice_def Let_def)

lemma elems_toConcrete [simp]: "elems (toConcreteUint8Array a) = elems a"
  by (simp add: toConcreteUint8Array_def u8_set_def new_Uint8Array_def Let_def)

lemma buffer_toConcrete [simp]: "buffer (toConcreteUint8Array a) = ArrayBuffer"
  by (simp add: toConcreteUint8Array_def u8_set_def new_Uint8Array_def Let_def)

lemma combine_value:
  "combine salt iv enc = Inr \<lparr>buffer = ArrayBuffer, elems = elems salt @ elems iv @ enc\<rparr>"
  by (simp add: combine_def Let_def u8_set_def new_Uint8Array_def Uint8Array_of_def
      replicate_add [symmetric] del: replicate_add)

lemma getRandomValues_value:
  "getRandomValues (new_Uint8Array n) r =
     (\<lparr>buffer = ArrayBuffer, elems = map r [0..<n]\<rparr>, \<lambda>i. r (n + i))"
  by (simp add: getRandomValues_def new_Uint8Array_def)

subsection \<open>Base64\<close>

lemma unat_byte_less: "unat (a::byte) < 256"
  using unsigned_less [of a, where ?'a = nat] by simp

lemma unat_of_nat_u16: "n < 65536 \<Longrightarrow> unat (word_of_nat n :: 16 word) = n"
  by (simp add: unat_of_nat)

lemma unat_b64_char:
  "i < 64 \<Longrightarrow> unat (b64_char i) =
     (if i < 26 then 0x41 + i else if i < 52 then 0x61 + (i - 26)
      else if i < 62 then 0x30 + (i - 52) else if i = 62 then 0x2B else 0x2F)"
  unfolding b64_char_def
  by (simp add: unat_of_nat_u16 del: of_nat_add of_nat_numeral of_nat_diff)

lemma b64_value_unat:
  "b64_value c =
     (if 0x41 \<le> unat c \<and> unat c \<le> 0x5A then Some (unat c - 0x41)
      else if 0x61 \<le> unat c \<and> unat c \<le> 0x7A then Some (unat c - 0x61 + 26)
      else if 0x30 \<le> unat c \<and> unat c \<le> 0x39 then Some (unat c - 0x30 + 52)
      else if unat c = 0x2B then Some 62
      else if unat c = 0x2F then Some 63
      else None)"
proof -
  have "(c = 0x2B) = (unat c = 0x2B)" "(c = 0x2F) = (unat c = 0x2F)"
    by (simp_all add: word_unat_eq_iff)
  then show ?thesis by (simp add: b64_value_def)
qed

lemma b64_value_char: "i < 64 \<Longrightarrow> b64_value (b64_char i) = Some i"
  by (auto simp: b64_value_unat unat_b64_char)

lemma b64_char_not_pad: "i < 64 \<Longrightarrow> b64_char i \<noteq> 0x3D"
proof
  assume "i < 64" "b64_char i = 0x3D"
  then have "unat (b64_char i) = 0x3D" by simp
  with \<open>i < 64\<close> show False by (auto simp: unat_b64_char split: if_splits)
qed

lemma b64_char_not_space: "i < 64 \<Longrightarrow> \<not> is_ascii_whitespace (b64_char i)"
proof
  assume "i < 64" "is_ascii_whitespace (b64_char i)"
  then have "unat (b64_char i) \<in> {0x09, 0x0A, 0x0C, 0x0D, 0x20}"
    by (auto simp: is_ascii_whitespace_def)
  with \<open>i < 64\<close> show False by (auto simp: unat_b64_char split: if_splits)
qed

lemma byte_sextets [simp]:
  "unat (a::byte) div 4 < 64" "unat (a::byte) mod 4 * 16 < 64"
  "unat (a::byte) mod 4 * 16 + unat (b::byte) div 16 < 64"
  "unat (b::byte) mod 16 * 4 < 64"
  "unat (b::byte) mod 16 * 4 + unat (c::byte) div 64 < 64"
  "unat (c::byte) mod 64 < 64"
  using unat_byte_less [of a] unat_byte_less [of b] unat_byte_less [of c] by simp_all

lemma b64_char_symbol: "i < 64 \<Longrightarrow> \<exists>j<64. b64_char i = b64_char j"
  by blast

lemma b64_body_symbols: "c \<in> set (b64_body bs) \<Longrightarrow> \<exists>i<64. c = b64_char i"
  by (induction bs arbitrary: c rule: b64_body.induct) (auto intro!: b64_char_symbol)

lemma b64_encode_body:
  "b64_encode bs = b64_body bs @ replicate ((3 - length bs mod 3) mod 3) 0x3D"
  by (induction bs rule: b64_body.induct) (simp_all add: numeral_2_eq_2)

lemma length_b64_body_mod: "length (b64_body bs) mod 4 \<noteq> 1"
  by (induction bs rule: b64_body.induct) simp_all

lemma length_b64_encode_mod: "length (b64_encode bs) mod 4 = 0"
  by (induction bs rule: b64_encode.induct) simp_all

lemma b64_encode_no_space: "filter (\<lambda>c. \<not> is_ascii_whitespace c) (b64_encode bs) = b64_encode bs"
proof -
  have "\<not> is_ascii_whitespace c" if "c \<in> set (b64_encode bs)" for c
  proof -
    from that have "(\<exists>i<64. c = b64_char i) \<or> c = 0x3D"
      by (auto simp: b64_encode_body dest: b64_body_symbols)
    then show ?thesis
      by (auto simp: b64_char_not_space) (simp add: is_ascii_whitespace_def)
  qed
  then show ?thesis by (simp add: filter_id_conv)
qed

lemma last_b64_body: "b64_body bs \<noteq> [] \<Longrightarrow> last (b64_body bs) \<noteq> 0x3D"
  using b64_body_symbols [of "last (b64_body bs)" bs]
  by (auto simp: b64_char_not_pad)

lemma strip_padding_encode: "strip_padding (b64_encode bs) = b64_body bs"
proof -
  consider "length bs mod 3 = 0" | "length bs mod 3 = 1" | "length bs mod 3 = 2" by arith
  then show ?thesis
  proof cases
    case 1
    then show ?thesis
      using last_b64_body [of bs] by (auto simp: b64_encode_body strip_padding_def)
  next
    case 2
    then have "b64_encode bs = b64_body bs @ [0x3D, 0x3D]"
      by (simp add: b64_encode_body numeral_2_eq_2)
    then show ?thesis by (simp add: strip_padding_def butlast_append)
  next
    case 3
    then have e: "b64_encode bs = b64_body bs @ [0x3D]"
      by (simp add: b64_encode_body)
    show ?thesis using last_b64_body [of bs]
      by (auto simp: e strip_padding_def)
  qed
qed

lemma sextet_arith:
  fixes a b c :: nat
  assumes "a < 256" "b < 256" "c < 256"
  shows "a div 4 * 4 + (a mod 4 * 16 + b div 16) div 16 = a"
    and "(a mod 4 * 16 + b div 16) mod 16 * 16 + (b mod 16 * 4 + c div 64) div 4 = b"
    and "(b mod 16 * 4 + c div 64) mod 4 * 64 + c mod 64 = c"
    and "a div 4 * 4 + a mod 4 * 16 div 16 = a"
    and "(a mod 4 * 16 + b div 16) mod 16 * 16 + b mod 16 * 4 div 4 = b"
proof -
  have b16: "b div 16 < 16" and c64: "c div 64 < 4" using assms by simp_all
  show "a div 4 * 4 + (a mod 4 * 16 + b div 16) div 16 = a"
    using b16 by simp
  show "(a mod 4 * 16 + b div 16) mod 16 * 16 + (b mod 16 * 4 + c div 64) div 4 = b"
    using b16 c64 by simp
  show "(b mod 16 * 4 + c div 64) mod 4 * 64 + c mod 64 = c"
    using c64 by simp
  show "a div 4 * 4 + a mod 4 * 16 div 16 = a"
    by simp
  show "(a mod 4 * 16 + b div 16) mod 16 * 16 + b mod 16 * 4 div 4 = b"
    using b16 by simp
qed

lemma byte_of_sextets:
  "(of_nat (unat (a::byte) div 4 * 4 + (unat a mod 4 * 16 + unat (b::byte) div 16) div 16) :: byte) = a"
  "(of_nat ((unat (a::byte) mod 4 * 16 + unat (b::byte) div 16) mod 16 * 16
      + (unat b mod 16 * 4 + unat (c::byte) div 64) div 4) :: byte) = b"
  "(of_nat ((unat (b::byte) mod 16 * 4 + unat (c::byte) div 64) mod 4 * 64 + unat c mod 64) :: byte) = c"
  "(of_nat (unat (a::byte) div 4 * 4 + unat a mod 4 * 16 div 16) :: byte) = a"
  "(of_nat ((unat (a::byte) mod 4 * 16 + unat (b::byte) div 16) mod 16 * 16
      + unat b mod 16 * 4 div 4) :: byte) = b"
  by (simp_all only: sextet_arith [OF unat_byte_less unat_byte_less unat_byte_less] of_nat_unat
      ucast_id)

lemma b64_pack_body: "b64_pack (map (\<lambda>c. the (b64_value c)) (b64_body bs)) = bs"
  by (induction bs rule: b64_body.induct)
     (simp_all only: b64_body.simps list.map map_append b64_value_char byte_sextets option.sel
        b64_pack.simps byte_of_sextets append_Cons append_Nil)

lemma ucast_byte_roundtrip: "map ucast (map ucast (bs::bytes) :: 16 word list) = bs"
  by (induction bs) (simp_all add: ucast_up_ucast_id is_up)

lemma atob_b64_encode: "atob (b64_encode bs) = Inr (String_fromCharCode bs)"
proof -
  have "b64_value c \<noteq> None" if "c \<in> set (b64_body bs)" for c
  proof -
    from b64_body_symbols [OF that] obtain i where "i < 64" "c = b64_char i"
      by auto
    then show ?thesis by (simp add: b64_value_char)
  qed
  then have "\<not> (\<exists>c \<in> set (b64_body bs). b64_value c = None)" by blast
  then show ?thesis
    using length_b64_body_mod [of bs]
    by (simp add: atob_def Let_def b64_encode_no_space length_b64_encode_mod
        strip_padding_encode b64_pack_body String_fromCharCode_def)
qed

lemma btoa_fromCharCode: "btoa (String_fromCharCode bs) = Inr (b64_encode bs)"
proof -
  have "unat (ucast (b::byte) :: 16 word) \<le> 0xFF" for b
    using unat_byte_less [of b] by (simp add: unsigned_ucast_eq take_bit_nat_eq_self)
  then have "\<not> (\<exists>c \<in> set (String_fromCharCode bs). unat c > 0xFF)"
    by (auto simp: String_fromCharCode_def not_less)
  then show ?thesis
    using ucast_byte_roundtrip [of bs] by (simp add: btoa_def String_fromCharCode_def)
qed

lemma elems_from_string_fromCharCode:
  "elems (Uint8Array_from_string (String_fromCharCode bs)) = bs"
  using ucast_byte_roundtrip [of bs]
  by (simp add: Uint8Array_from_string_def Uint8Array_of_def String_fromCharCode_def)

subsection \<open>Encrypting and decrypting\<close>

lemma deriveKey_derived [simp]: "deriveKey password salt = Inr (derived_key password salt)"
  by (simp add: deriveKey_value derived_key_def password_key_def)

lemma length_password_key [simp]: "length (password_key w s) = 32"
  by (simp add: password_key_def)

lemma length_drawn [simp]: "length (drawn_salt r) = 16" "length (drawn_iv r) = 12"
  by (simp_all add: drawn_salt_def drawn_iv_def)

lemma length_sealed [simp]: "length (sealed w r p) = length p + 16"
  by (auto simp: sealed_def dest: gcm_ae_lengths split: prod.split)

lemma subtle_encrypt_derived:
  "length p \<le> 2 ^ 39 - 256 \<Longrightarrow>
   subtle_encrypt_AES_GCM (drawn_iv r) (derived_key w (drawn_salt r)) p = Inr (sealed w r p)"
  by (simp add: subtle_encrypt_AES_GCM_def derived_key_def is_AES_GCM_def sealed_def
      split: prod.split)

lemma subtle_encrypt_too_long:
  "length p > 2 ^ 39 - 256 \<Longrightarrow>
   subtle_encrypt_AES_GCM iv (derived_key w s) p = Inl (DOMException OperationError)"
  by (simp add: subtle_encrypt_AES_GCM_def derived_key_def is_AES_GCM_def)

lemma subtle_decrypt_derived:
  "subtle_decrypt_AES_GCM iv (derived_key w s) ct =
     (if length ct < 16 \<or> length iv > 2 ^ 64 - 1 then Inl (DOMException OperationError)
      else case gcm_ad (password_key w s) iv (take (length ct - 16) ct) []
                  (drop (length ct - 16) ct) of
             None \<Rightarrow> Inl (DOMException OperationError)
           | Some p \<Rightarrow> Inr p)"
  by (simp add: subtle_decrypt_AES_GCM_def derived_key_def is_AES_GCM_def)

lemma getRandomValues_salt_iv:
  "getRandomValues (new_Uint8Array 16) r = (Uint8Array_of (drawn_salt r), \<lambda>i. r (16 + i))"
  "getRandomValues (new_Uint8Array 12) (\<lambda>i. r (16 + i)) =
     (Uint8Array_of (drawn_iv r), \<lambda>i. r (16 + (12 + i)))"
  by (simp_all add: getRandomValues_value Uint8Array_of_def drawn_salt_def drawn_iv_def)

lemma encryptImage_value:
  "fst (encryptImage img w r) =
     (if length (elems img) \<le> 2 ^ 39 - 256
      then Inr (Uint8Array_of (drawn_salt r @ drawn_iv r @ sealed w r (elems img)))
      else Inl (DOMException OperationError))"
  by (simp add: encryptImage_def getRandomValues_salt_iv Uint8Array_of_def Let_def
      subtle_encrypt_derived subtle_encrypt_too_long combine_value not_le)

lemma encryptContent_value:
  "fst (encryptContent max_arguments content w r) =
     (if length (elems (TextEncoder_encode content)) \<le> 2 ^ 39 - 256
      then if length (elems (TextEncoder_encode content)) + 44 \<le> max_arguments
           then Inr (b64_encode (drawn_salt r @ drawn_iv r
                                 @ sealed w r (elems (TextEncoder_encode content))))
           else Inl RangeError
      else Inl (DOMException OperationError))"
  by (simp add: encryptContent_def getRandomValues_salt_iv Uint8Array_of_def Let_def
      subtle_encrypt_derived subtle_encrypt_too_long combine_value not_le btoa_fromCharCode
      String_fromCharCode_spread_def)

lemma encryptContent_returns:
  assumes "fst (encryptContent max_arguments content w r) = Inr s"
  shows "s = b64_encode (drawn_salt r @ drawn_iv r
                         @ sealed w r (elems (TextEncoder_encode content)))"
    and "length (elems (TextEncoder_encode content)) \<le> 2 ^ 39 - 256"
    and "length (elems (TextEncoder_encode content)) + 44 \<le> max_arguments"
  using assms by (simp_all add: encryptContent_value split: if_splits)

lemma decryptImage_try_value:
  "decryptImage_try env w =
     (case subtle_decrypt_AES_GCM (take 12 (drop 16 (elems env)))
             (derived_key w (take 16 (elems env))) (drop 28 (elems env)) of
        Inl e \<Rightarrow> Inl e
      | Inr p \<Rightarrow> Inr (Uint8Array_of p))"
  by (simp add: decryptImage_try_def Let_def elems_slice_salt elems_slice_iv elems_slice_rest)

lemma decryptContent_try_value:
  "decryptContent_try s w =
     (case atob s of
        Inl e \<Rightarrow> Inl e
      | Inr d \<Rightarrow>
          (case subtle_decrypt_AES_GCM (take 12 (drop 16 (elems (Uint8Array_from_string d))))
                  (derived_key w (take 16 (elems (Uint8Array_from_string d))))
                  (drop 28 (elems (Uint8Array_from_string d))) of
             Inl e \<Rightarrow> Inl e
           | Inr p \<Rightarrow> Inr (TextDecoder_decode p)))"
  by (simp add: decryptContent_try_def Let_def elems_slice_salt elems_slice_iv elems_slice_rest
      split: sum.split)

lemma gcm_ad_sealed:
  "gcm_ad (password_key w (drawn_salt r)) (drawn_iv r)
     (take (length p) (sealed w r p)) [] (drop (length p) (sealed w r p)) = Some p"
proof -
  obtain c t where ae: "gcm_ae (password_key w (drawn_salt r)) (drawn_iv r) p [] 16 = (c, t)"
    by (cases "gcm_ae (password_key w (drawn_salt r)) (drawn_iv r) p [] 16")
  from gcm_ae_lengths [OF ae] have len: "length c = length p" "length t = 16" by simp_all
  have s: "sealed w r p = c @ t" by (simp add: sealed_def ae)
  show ?thesis using gcm_ad_ae [OF ae] len by (simp add: s)
qed

lemma subtle_decrypt_sealed:
  "subtle_decrypt_AES_GCM (drawn_iv r) (derived_key w (drawn_salt r)) (sealed w r p) = Inr p"
  by (simp add: subtle_decrypt_derived gcm_ad_sealed)

lemma decryptImage_envelope:
  "decryptImage_try (Uint8Array_of (drawn_salt r @ drawn_iv r @ sealed w r p)) w
     = Inr (Uint8Array_of p)"
  by (simp add: decryptImage_try_value Uint8Array_of_def subtle_decrypt_sealed)

lemma image_roundtrip_same:
  "length (elems img) \<le> 2 ^ 39 - 256 \<Longrightarrow>
   image_roundtrip img w w r = Inr (Uint8Array_of (elems img))"
  by (simp add: image_roundtrip_def encryptImage_value decryptImage_def decryptImage_envelope)

lemma text_roundtrip_same:
  "length (elems (TextEncoder_encode content)) \<le> 2 ^ 39 - 256 \<Longrightarrow>
   length (elems (TextEncoder_encode content)) + 44 \<le> max_arguments \<Longrightarrow>
   text_roundtrip max_arguments content w w r
     = Inr (TextDecoder_decode (elems (TextEncoder_encode content)))"
  by (simp add: text_roundtrip_def encryptContent_value decryptContent_def
      decryptContent_try_value atob_b64_encode elems_from_string_fromCharCode
      subtle_decrypt_sealed)

subsection \<open>Decrypting with another password\<close>

lemma gcm_ad_tag_verifies:
  "16 \<le> length ct \<Longrightarrow>
   gcm_ad (password_key w (drawn_salt r)) (drawn_iv r) (take (length ct - 16) ct) []
     (drop (length ct - 16) ct) =
   (if tag_verifies w r ct
    then Some (gctr (password_key w (drawn_salt r))
                 (inc32 (gcm_J0 (aes_encrypt_block (password_key w (drawn_salt r)) 0) (drawn_iv r)))
                 (take (length ct - 16) ct))
    else None)"
  by (simp add: gcm_ad_def tag_verifies_def)

lemma tag_verifies_sealed: "tag_verifies w r (sealed w r p)"
proof -
  have "gcm_ad (password_key w (drawn_salt r)) (drawn_iv r)
          (take (length (sealed w r p) - 16) (sealed w r p)) []
          (drop (length (sealed w r p) - 16) (sealed w r p)) = Some p"
    using gcm_ad_sealed [of w r p] by simp
  then show ?thesis
    by (subst (asm) gcm_ad_tag_verifies) (simp_all split: if_splits)
qed

lemma decryptImage_try_envelope:
  "decryptImage_try (Uint8Array_of (drawn_salt r @ drawn_iv r @ ct)) w =
     (if 16 \<le> length ct \<and> tag_verifies w r ct
      then Inr (Uint8Array_of
             (gctr (password_key w (drawn_salt r))
                (inc32 (gcm_J0 (aes_encrypt_block (password_key w (drawn_salt r)) 0) (drawn_iv r)))
                (take (length ct - 16) ct)))
      else Inl (DOMException OperationError))"
  by (simp add: decryptImage_try_value Uint8Array_of_def subtle_decrypt_derived
      gcm_ad_tag_verifies)

lemma decryptContent_try_envelope:
  "decryptContent_try (b64_encode (drawn_salt r @ drawn_iv r @ ct)) w =
     (if 16 \<le> length ct \<and> tag_verifies w r ct
      then Inr (TextDecoder_decode
             (gctr (password_key w (drawn_salt r))
                (inc32 (gcm_J0 (aes_encrypt_block (password_key w (drawn_salt r)) 0) (drawn_iv r)))
                (take (length ct - 16) ct)))
      else Inl (DOMException OperationError))"
  by (simp add: decryptContent_try_value atob_b64_encode elems_from_string_fromCharCode
      subtle_decrypt_derived gcm_ad_tag_verifies)

lemma image_roundtrip_fails_iff:
  assumes "length (elems img) \<le> 2 ^ 39 - 256"
  shows "(image_roundtrip img w1 w2 r =
            Inl (Error ''Image decryption failed. Incorrect password or corrupted data.''))
         = (\<not> tag_verifies w2 r (sealed w1 r (elems img)))"
  using assms
  by (simp add: image_roundtrip_def encryptImage_value decryptImage_def
      decryptImage_try_envelope)

lemma text_roundtrip_fails_iff:
  assumes "length (elems (TextEncoder_encode content)) \<le> 2 ^ 39 - 256"
    and "length (elems (TextEncoder_encode content)) + 44 \<le> max_arguments"
  shows "(text_roundtrip max_arguments content w1 w2 r =
            Inl (Error ''Decryption failed. Incorrect password or corrupted data.''))
         = (\<not> tag_verifies w2 r (sealed w1 r (elems (TextEncoder_encode content))))"
  using assms
  by (simp add: text_roundtrip_def encryptContent_value decryptContent_def
      decryptContent_try_envelope)

lemma same_key_same_result:
  assumes "password_key w2 (drawn_salt r) = password_key w1 (drawn_salt r)"
  shows "image_roundtrip img w1 w2 r = image_roundtrip img w1 w1 r"
    and "text_roundtrip max_arguments content w1 w2 r
           = text_roundtrip max_arguments content w1 w1 r"
  using assms
  by (simp_all add: image_roundtrip_def text_roundtrip_def encryptImage_value
      encryptContent_value decryptImage_def decryptContent_def decryptImage_try_value
      decryptContent_try_value derived_key_def Uint8Array_of_def atob_b64_encode
      elems_from_string_fromCharCode)

text \<open>
  HMAC fills its key with zero bytes, so a password and the password followed by a NUL
  character derive the same key.
\<close>

lemma hmac_key_block_zero:
  "length k < B \<Longrightarrow> hmac_key_block h B (k @ [0]) = hmac_key_block h B k"
proof -
  assume less: "length k < B"
  then have "B - length k = Suc (B - Suc (length k))" by simp
  with less show ?thesis
    by (simp add: hmac_key_block_def Let_def replicate_app_Cons_same)
qed

lemma hmac_zero: "length k < B \<Longrightarrow> hmac h B (k @ [0]) = hmac h B k"
  by (rule ext) (simp add: hmac_def hmac_key_block_zero)

lemma pbkdf2_iter_cong:
  "prf p = prf p' \<Longrightarrow> pbkdf2_iter prf p n u acc = pbkdf2_iter prf p' n u acc"
  by (induction n arbitrary: u acc) (simp_all add: Let_def)

lemma pbkdf2_cong:
  "prf p = prf p' \<Longrightarrow> pbkdf2 prf hLen p s c dkLen = pbkdf2 prf hLen p' s c dkLen"
proof -
  assume eq: "prf p = prf p'"
  then have "pbkdf2_F prf p s c = pbkdf2_F prf p' s c"
    by (intro ext) (simp add: pbkdf2_F_def Let_def pbkdf2_iter_cong [OF eq])
  then show ?thesis by (simp add: pbkdf2_def)
qed

lemma scalar_values_zero: "scalar_values (w @ [0]) = scalar_values w @ [0]"
proof (induction w rule: scalar_values.induct)
  case 1
  then show ?case by (simp add: is_lead_surrogate_def is_trail_surrogate_def)
next
  case (2 c)
  then show ?case by (simp add: is_lead_surrogate_def is_trail_surrogate_def)
next
  case (3 c d cs)
  then show ?case by simp
qed

lemma TextEncoder_zero:
  "elems (TextEncoder_encode (w @ [0])) = elems (TextEncoder_encode w) @ [0]"
  by (simp add: TextEncoder_encode_def Uint8Array_of_def scalar_values_zero
      utf8_encode_scalar_def)

lemma password_key_zero:
  "length (elems (TextEncoder_encode w)) < 64 \<Longrightarrow>
   password_key (w @ [0]) salt = password_key w salt"
  unfolding password_key_def TextEncoder_zero hmac_sha256_def
  by (rule pbkdf2_cong) (simp add: hmac_zero)

text \<open>Evaluating the text codecs on literals.\<close>

lemmas text_codec_defs =
  TextEncoder_encode_def TextDecoder_decode_def Uint8Array_of_def utf8_encode_scalar_def
  utf16_of_scalar_def is_lead_surrogate_def is_trail_surrogate_def js_of_string_def

lemmas atob_defs =
  atob_def js_of_string_def is_ascii_whitespace_def strip_padding_def b64_value_def Let_def

lemma TextDecoder_lone_byte: "0x80 \<le> unat b \<Longrightarrow> TextDecoder_decode [b] = [0xFFFD]"
  by (simp add: text_codec_defs)

lemma length_b64_encode: "length (b64_encode bs) = 4 * ((length bs + 2) div 3)"
proof (induction bs rule: b64_encode.induct)
  case (4 a b c bs)
  have "(5 + length bs) div 3 = Suc ((2 + length bs) div 3)" by presburger
  with 4 show ?case by simp
qed simp_all

text \<open>
  An envelope whose tag has been replaced by any other 16 bytes (one flipped bit, for
  instance) is rejected, and each encrypt call leaves the random source 28 bytes
  further.
\<close>

lemma tampered_tag_rejected:
  assumes "length t' = 16" and "t' \<noteq> drop (length p) (sealed w r p)"
  shows "decryptImage_try
           (Uint8Array_of (drawn_salt r @ drawn_iv r @ take (length p) (sealed w r p) @ t')) w
         = Inl (DOMException OperationError)"
    and "decryptContent_try
           (b64_encode (drawn_salt r @ drawn_iv r @ take (length p) (sealed w r p) @ t')) w
         = Inl (DOMException OperationError)"
proof -
  let ?c = "take (length p) (sealed w r p)"
  have len: "length ?c = length p" by simp
  have "gcm_tag (password_key w (drawn_salt r)) (drawn_iv r) [] ?c 16
          = drop (length p) (sealed w r p)"
    using tag_verifies_sealed [of w r p] by (simp add: tag_verifies_def)
  with assms have "\<not> tag_verifies w r (?c @ t')"
    by (simp add: tag_verifies_def)
  then show "decryptImage_try (Uint8Array_of (drawn_salt r @ drawn_iv r @ ?c @ t')) w
               = Inl (DOMException OperationError)"
    and "decryptContent_try (b64_encode (drawn_salt r @ drawn_iv r @ ?c @ t')) w
               = Inl (DOMException OperationError)"
    by (simp_all add: decryptImage_try_envelope decryptContent_try_envelope)
qed

lemma encrypt_advances_rng:
  "snd (encryptImage img w r) = (\<lambda>i. r (28 + i))"
  "snd (encryptContent max_arguments content w r) = (\<lambda>i. r (28 + i))"
  by (simp_all add: encryptImage_def encryptContent_def getRandomValues_salt_iv Let_def
      add.assoc [symmetric])



subsection \<open>Within and beyond the limits\<close>

text \<open>
  Below the limit of AES-GCM, and for a content below the argument limit of the engine,
  the encrypt functions return an envelope, for every password. The empty plaintext
  gives an envelope of 60 base64 characters or 44 bytes that decrypts to the empty
  plaintext.
\<close>

lemma encrypt_within_limits:
  "length (elems (TextEncoder_encode content)) \<le> 2 ^ 39 - 256 \<Longrightarrow>
   length (elems (TextEncoder_encode content)) + 44 \<le> max_arguments \<Longrightarrow>
   \<exists>s. fst (encryptContent max_arguments content w r) = Inr s"
  "length (elems img) \<le> 2 ^ 39 - 256 \<Longrightarrow> \<exists>env. fst (encryptImage img w r) = Inr env"
  by (simp_all add: encryptContent_value encryptImage_value)

lemma encrypt_empty:
  "44 \<le> max_arguments \<Longrightarrow>
   \<exists>s. fst (encryptContent max_arguments [] w r) = Inr s \<and> length s = 60
       \<and> decryptContent s w = Inr []"
  "\<exists>env. fst (encryptImage (Uint8Array_of []) w r) = Inr env
       \<and> length (elems env) = 44 \<and> decryptImage env w = Inr (Uint8Array_of [])"
proof -
  have empty: "elems (TextEncoder_encode []) = []" "TextDecoder_decode [] = []"
    by (simp_all add: text_codec_defs)
  show "\<exists>s. fst (encryptContent max_arguments [] w r) = Inr s \<and> length s = 60
       \<and> decryptContent s w = Inr []" if "44 \<le> max_arguments"
  proof -
    have "text_roundtrip max_arguments [] w w r = Inr []"
      using that text_roundtrip_same [of "[]" max_arguments w r] by (simp add: empty)
    with that show ?thesis
      by (simp add: text_roundtrip_def encryptContent_value empty length_b64_encode)
  qed
  have "image_roundtrip (Uint8Array_of []) w w r = Inr (Uint8Array_of [])"
    using image_roundtrip_same [of "Uint8Array_of []" w r] by (simp add: Uint8Array_of_def)
  then show "\<exists>env. fst (encryptImage (Uint8Array_of []) w r) = Inr env
       \<and> length (elems env) = 44 \<and> decryptImage env w = Inr (Uint8Array_of [])"
    by (simp add: image_roundtrip_def encryptImage_value Uint8Array_of_def)
qed

text \<open>A content of \<open>n\<close> letters \<^verbatim>\<open>a\<close> is encoded in \<open>n\<close> bytes.\<close>

lemma scalar_values_replicate_ascii: "scalar_values (replicate n 0x61) = replicate n 0x61"
proof (induction n)
  case 0
  show ?case by simp
next
  case (Suc n)
  then show ?case
    by (cases n) (simp_all add: is_lead_surrogate_def is_trail_surrogate_def)
qed

lemma utf8_replicate_ascii:
  "concat (replicate n (utf8_encode_scalar 0x61)) = replicate n 0x61"
  by (induction n) (simp_all add: utf8_encode_scalar_def)

lemma TextEncoder_replicate_ascii:
  "elems (TextEncoder_encode (replicate n 0x61)) = replicate n 0x61"
  by (simp add: TextEncoder_encode_def Uint8Array_of_def scalar_values_replicate_ascii
      utf8_replicate_ascii)

subsection \<open>Passwords that derive one key\<close>

text \<open>
  The password \<^verbatim>\<open>"img-pass"\<close> followed by a NUL character is another password and
  derives the key of \<^verbatim>\<open>"img-pass"\<close>, for every salt: it decrypts its envelopes.
\<close>

lemma nul_padded_password_decrypts:
  "js_of_string ''img-pass'' @ [0] \<noteq> js_of_string ''img-pass''
   \<and> image_roundtrip (Uint8Array_of [0x89, 0x50, 0x4E]) (js_of_string ''img-pass'')
       (js_of_string ''img-pass'' @ [0]) (rng_of_list [1, 2, 3])
     = Inr (Uint8Array_of [0x89, 0x50, 0x4E])"
proof -
  have short: "length (elems (TextEncoder_encode (js_of_string ''img-pass''))) < 64"
    by (simp add: text_codec_defs)
  have size: "length (elems (Uint8Array_of [0x89, 0x50, 0x4E])) \<le> 2 ^ 39 - 256"
    by (simp add: Uint8Array_of_def)
  have "image_roundtrip (Uint8Array_of [0x89, 0x50, 0x4E]) (js_of_string ''img-pass'')
          (js_of_string ''img-pass'' @ [0]) (rng_of_list [1, 2, 3])
        = image_roundtrip (Uint8Array_of [0x89, 0x50, 0x4E]) (js_of_string ''img-pass'')
          (js_of_string ''img-pass'') (rng_of_list [1, 2, 3])"
    by (rule same_key_same_result) (rule password_key_zero [OF short])
  also have "\<dots> = Inr (Uint8Array_of (elems (Uint8Array_of [0x89, 0x50, 0x4E])))"
    by (rule image_roundtrip_same [OF size])
  finally show ?thesis by (simp add: Uint8Array_of_def)
qed
subsection \<open>UTF-8 and UTF-16\<close>

text \<open>
  Decoding the UTF-8 encoding of a string without lone surrogates gives the string
  back, but for a byte order mark at its start.
\<close>

lemma unat_of_nat_byte: "n < 256 \<Longrightarrow> unat (of_nat n :: byte) = n"
  by (simp add: unat_of_nat)

lemma decode_1:
  assumes "cp \<le> 0x7F"
  shows "utf8_decode_run 0 0 0 0x80 0xBF (utf8_encode_scalar cp @ bs)
           = cp # utf8_decode_run 0 0 0 0x80 0xBF bs"
  using assms by (simp add: utf8_encode_scalar_def unat_of_nat_byte)

lemma decode_2:
  assumes "0x80 \<le> cp" "cp \<le> 0x7FF"
  shows "utf8_decode_run 0 0 0 0x80 0xBF (utf8_encode_scalar cp @ bs)
           = cp # utf8_decode_run 0 0 0 0x80 0xBF bs"
proof -
  have hi: "cp div 64 < 32" "2 \<le> cp div 64" using assms by simp_all
  have lo: "cp mod 64 < 64" by simp
  have b1: "unat (of_nat (cp div 64 + 0xC0) :: byte) = cp div 64 + 0xC0"
    using hi by (intro unat_of_nat_byte) simp
  have b2: "unat (of_nat (0x80 + cp mod 64) :: byte) = 0x80 + cp mod 64"
    using lo by (intro unat_of_nat_byte) simp
  have m1: "(cp div 64 + 0xC0) mod 32 = cp div 64"
    using hi by (simp add: mod_add_eq [symmetric])
  have m2: "(0x80 + cp mod 64) mod 64 = cp mod 64"
    by (simp add: mod_add_eq [symmetric])
  show ?thesis
    using assms hi
    by (simp add: utf8_encode_scalar_def b1 b2 m1 m2 del: of_nat_add)
qed

lemma decode_3:
  assumes "0x800 \<le> cp" "cp \<le> 0xFFFF" "\<not> (0xD800 \<le> cp \<and> cp \<le> 0xDFFF)"
  shows "utf8_decode_run 0 0 0 0x80 0xBF (utf8_encode_scalar cp @ bs)
           = cp # utf8_decode_run 0 0 0 0x80 0xBF bs"
proof -
  define a where "a = cp div 4096"
  define b where "b = cp div 64 mod 64"
  define c where "c = cp mod 64"
  have cp: "cp = a * 4096 + b * 64 + c"
  proof -
    have "cp = cp div 64 * 64 + c" by (simp add: c_def)
    moreover have "cp div 64 = cp div 64 div 64 * 64 + b" by (simp add: b_def)
    moreover have "cp div 64 div 64 = a" by (simp add: a_def div_mult2_eq [symmetric])
    ultimately show ?thesis by simp
  qed
  have a: "a < 16" using assms by (simp add: a_def)
  have b: "b < 64" by (simp add: b_def)
  have c: "c < 64" by (simp add: c_def)
  have lowb: "a = 0 \<Longrightarrow> 32 \<le> b" using assms(1) cp c by simp
  have highb: "a = 13 \<Longrightarrow> b < 32" using assms(2,3) cp b c by linarith
  have b1: "unat (of_nat (a + 0xE0) :: byte) = a + 0xE0"
    using a by (intro unat_of_nat_byte) simp
  have b2: "unat (of_nat (0x80 + b) :: byte) = 0x80 + b"
    using b by (intro unat_of_nat_byte) simp
  have b3: "unat (of_nat (0x80 + c) :: byte) = 0x80 + c"
    using c by (intro unat_of_nat_byte) simp
  have m1: "(a + 0xE0) mod 16 = a" using a by (simp add: mod_add_eq [symmetric])
  have m2: "(0x80 + b) mod 64 = b" using b by (simp add: mod_add_eq [symmetric])
  have m3: "(0x80 + c) mod 64 = c" using c by (simp add: mod_add_eq [symmetric])
  have enc: "utf8_encode_scalar cp = [of_nat (a + 0xE0), of_nat (0x80 + b), of_nat (0x80 + c)]"
    using assms by (simp add: utf8_encode_scalar_def a_def b_def c_def del: of_nat_add)
  have val: "(a * 64 + b) * 64 + c = cp" using cp by simp
  show ?thesis
    unfolding enc
    using a b c lowb highb cp
    by (auto simp: b1 b2 b3 m1 m2 m3 simp del: of_nat_add)
qed

lemma decode_4:
  assumes "0x10000 \<le> cp" "cp < 0x110000"
  shows "utf8_decode_run 0 0 0 0x80 0xBF (utf8_encode_scalar cp @ bs)
           = cp # utf8_decode_run 0 0 0 0x80 0xBF bs"
proof -
  define a where "a = cp div 262144"
  define b where "b = cp div 4096 mod 64"
  define c where "c = cp div 64 mod 64"
  define d where "d = cp mod 64"
  have cp: "cp = a * 262144 + b * 4096 + c * 64 + d"
  proof -
    have "cp = cp div 64 * 64 + d" by (simp add: d_def)
    moreover have "cp div 64 = cp div 64 div 64 * 64 + c" by (simp add: c_def)
    moreover have "cp div 64 div 64 = cp div 4096" by (simp add: div_mult2_eq [symmetric])
    moreover have "cp div 4096 = cp div 4096 div 64 * 64 + b" by (simp add: b_def)
    moreover have "cp div 4096 div 64 = a" by (simp add: a_def div_mult2_eq [symmetric])
    ultimately show ?thesis by simp
  qed
  have a: "a < 5" using assms by (simp add: a_def)
  have b: "b < 64" by (simp add: b_def)
  have c: "c < 64" by (simp add: c_def)
  have d: "d < 64" by (simp add: d_def)
  have lowb: "a = 0 \<Longrightarrow> 16 \<le> b" using assms(1) cp c d by simp
  have highb: "a = 4 \<Longrightarrow> b < 16" using assms(2) cp by simp
  have b1: "unat (of_nat (a + 0xF0) :: byte) = a + 0xF0"
    using a by (intro unat_of_nat_byte) simp
  have b2: "unat (of_nat (0x80 + b) :: byte) = 0x80 + b"
    using b by (intro unat_of_nat_byte) simp
  have b3: "unat (of_nat (0x80 + c) :: byte) = 0x80 + c"
    using c by (intro unat_of_nat_byte) simp
  have b4: "unat (of_nat (0x80 + d) :: byte) = 0x80 + d"
    using d by (intro unat_of_nat_byte) simp
  have m1: "(a + 0xF0) mod 8 = a" using a by (simp add: mod_add_eq [symmetric])
  have m2: "(0x80 + b) mod 64 = b" using b by (simp add: mod_add_eq [symmetric])
  have m3: "(0x80 + c) mod 64 = c" using c by (simp add: mod_add_eq [symmetric])
  have m4: "(0x80 + d) mod 64 = d" using d by (simp add: mod_add_eq [symmetric])
  have enc: "utf8_encode_scalar cp =
      [of_nat (a + 0xF0), of_nat (0x80 + b), of_nat (0x80 + c), of_nat (0x80 + d)]"
    using assms by (simp add: utf8_encode_scalar_def a_def b_def c_def d_def del: of_nat_add)
  have val: "((a * 64 + b) * 64 + c) * 64 + d = cp" using cp by simp
  show ?thesis
    unfolding enc
    using a b c d lowb highb cp
    by (auto simp: b1 b2 b3 b4 m1 m2 m3 m4 simp del: of_nat_add)
qed

lemma decode_encode_scalar:
  "is_scalar cp \<Longrightarrow>
   utf8_decode_run 0 0 0 0x80 0xBF (utf8_encode_scalar cp @ bs)
     = cp # utf8_decode_run 0 0 0 0x80 0xBF bs"
  using decode_1 [of cp bs] decode_2 [of cp bs] decode_3 [of cp bs] decode_4 [of cp bs]
  by (cases "cp \<le> 0x7F"; cases "cp \<le> 0x7FF"; cases "cp \<le> 0xFFFF")
     (simp_all add: is_scalar_def)

lemma decode_encode_scalars:
  "\<forall>cp \<in> set cps. is_scalar cp \<Longrightarrow>
   utf8_decode_run 0 0 0 0x80 0xBF (concat (map utf8_encode_scalar cps)) = cps"
  by (induction cps) (simp_all add: decode_encode_scalar)

lemma unat_u16_less: "unat (c :: 16 word) < 65536"
  using unsigned_less [of c, where ?'a = nat] by simp

lemma pair_is_scalar:
  "is_lead_surrogate c \<Longrightarrow> is_trail_surrogate d \<Longrightarrow>
   is_scalar (0x10000 + (unat c - 0xD800) * 0x400 + (unat d - 0xDC00))"
  unfolding is_scalar_def is_lead_surrogate_def is_trail_surrogate_def by arith

lemma unit_is_scalar:
  "\<not> is_lead_surrogate c \<Longrightarrow> \<not> is_trail_surrogate c \<Longrightarrow> is_scalar (unat c)"
  using unat_u16_less [of c]
  by (auto simp: is_scalar_def is_lead_surrogate_def is_trail_surrogate_def)

lemma scalar_values_scalar:
  "well_formed_utf16 s \<Longrightarrow> cp \<in> set (scalar_values s) \<Longrightarrow> is_scalar cp"
  by (induction s rule: scalar_values.induct)
     (auto simp: pair_is_scalar unit_is_scalar split: if_splits)

lemma utf16_of_pair:
  assumes "is_lead_surrogate c" "is_trail_surrogate d"
  shows "utf16_of_scalar (0x10000 + (unat c - 0xD800) * 0x400 + (unat d - 0xDC00)) = [c, d]"
proof -
  define h where "h = unat c - 0xD800"
  define l where "l = unat d - 0xDC00"
  have c: "unat c = 0xD800 + h" and d: "unat d = 0xDC00 + l" and l: "l < 0x400"
    using assms unfolding h_def l_def is_lead_surrogate_def is_trail_surrogate_def by arith+
  have "(h * 0x400 + l) div 0x400 = h" "(h * 0x400 + l) mod 0x400 = l"
    using l by simp_all
  then have "utf16_of_scalar (0x10000 + h * 0x400 + l)
               = [of_nat (0xD800 + h), of_nat (0xDC00 + l)]"
    by (simp add: utf16_of_scalar_def add.assoc del: of_nat_add)
  then show ?thesis
    unfolding h_def [symmetric] l_def [symmetric] c [symmetric] d [symmetric] by simp
qed

lemma utf16_of_unit: "utf16_of_scalar (unat (c :: 16 word)) = [c]"
  using unat_u16_less [of c] by (simp add: utf16_of_scalar_def)

lemma utf16_scalar_values:
  "well_formed_utf16 s \<Longrightarrow> concat (map utf16_of_scalar (scalar_values s)) = s"
  by (induction s rule: scalar_values.induct)
     (auto simp: utf16_of_pair utf16_of_unit split: if_splits)

lemma scalar_values_bom:
  "well_formed_utf16 s \<Longrightarrow>
   scalar_values s = 0xFEFF # cps \<Longrightarrow> \<exists>s'. s = 0xFEFF # s' \<and> scalar_values s' = cps"
proof (induction s rule: scalar_values.induct)
  case 1
  then show ?case by simp
next
  case (2 c)
  then have "unat c = 0xFEFF" by (simp split: if_splits)
  then have "c = 0xFEFF" by (simp add: word_unat_eq_iff)
  with 2 show ?case by (simp split: if_splits)
next
  case (3 c d cs)
  have nl: "\<not> is_lead_surrogate c"
  proof
    assume l: "is_lead_surrogate c"
    with 3 show False
      by (auto simp: is_lead_surrogate_def is_trail_surrogate_def split: if_splits)
  qed
  with 3 have "unat c = 0xFEFF" by (simp split: if_splits)
  then have "c = 0xFEFF" by (simp add: word_unat_eq_iff)
  with 3 nl show ?case by (simp split: if_splits)
qed

lemma scalar_values_bom_head:
  "scalar_values (c # s) = cp # cps \<Longrightarrow> c = 0xFEFF \<Longrightarrow> cp = 0xFEFF"
  by (cases s) (auto simp: is_lead_surrogate_def is_trail_surrogate_def split: if_splits)

lemma text_codec_roundtrip:
  assumes "well_formed_utf16 s"
  shows "TextDecoder_decode (elems (TextEncoder_encode s))
           = (case s of [] \<Rightarrow> [] | c # s' \<Rightarrow> if c = 0xFEFF then s' else s)"
proof -
  have dec: "utf8_decode_run 0 0 0 0x80 0xBF (elems (TextEncoder_encode s)) = scalar_values s"
    using assms
    by (simp add: TextEncoder_encode_def Uint8Array_of_def decode_encode_scalars
        scalar_values_scalar)
  have td: "TextDecoder_decode (elems (TextEncoder_encode s))
      = concat (map utf16_of_scalar
          (case scalar_values s of [] \<Rightarrow> []
           | c # rest \<Rightarrow> if c = 0xFEFF then rest else scalar_values s))"
    by (simp add: TextDecoder_decode_def dec Let_def)
  show ?thesis
  proof (cases "scalar_values s")
    case Nil
    with assms utf16_scalar_values [of s] have "s = []" by simp
    with Nil show ?thesis unfolding td by simp
  next
    case (Cons cp cps)
    then obtain c s' where s: "s = c # s'" by (cases s) auto
    show ?thesis
    proof (cases "cp = 0xFEFF")
      case True
      with Cons scalar_values_bom [OF assms, of cps] s
      have c: "c = 0xFEFF" and s': "scalar_values s' = cps" by auto
      from assms s c have "well_formed_utf16 s'"
        by (cases s') (auto simp: is_lead_surrogate_def is_trail_surrogate_def)
      with s' utf16_scalar_values [of s'] have "concat (map utf16_of_scalar cps) = s'" by simp
      with True Cons show ?thesis unfolding td by (simp add: s c)
    next
      case False
      have "c \<noteq> 0xFEFF"
        using scalar_values_bom_head [of c s' cp cps] Cons s False by auto
      with False Cons utf16_scalar_values [OF assms] show ?thesis
        unfolding td by (simp add: s)
    qed
  qed
qed

text \<open>
  Conversely, a byte string whose decoding has no U+FFFD is the UTF-8 encoding of what
  it decodes to: the decoder lets no invalid byte through and drops none.
\<close>

lemma run_continue:
  assumes "0xFFFD \<notin> set (utf8_decode_run cp s n lo hi bs)" and "n \<noteq> 0"
  shows "\<exists>b bs'. bs = b # bs' \<and> lo \<le> unat b \<and> unat b \<le> hi
           \<and> utf8_decode_run cp s n lo hi bs =
               (if s + 1 = n then (cp * 64 + unat b mod 64) # utf8_decode_run 0 0 0 0x80 0xBF bs'
                else utf8_decode_run (cp * 64 + unat b mod 64) (s + 1) n 0x80 0xBF bs')"
  using assms by (cases bs) (auto split: if_splits)

lemma encode_2:
  assumes "0xC2 \<le> unat (b::byte)" "unat b \<le> 0xDF" "0x80 \<le> unat (b2::byte)" "unat b2 \<le> 0xBF"
  shows "utf8_encode_scalar (unat b mod 32 * 64 + unat b2 mod 64) = [b, b2]"
    and "is_scalar (unat b mod 32 * 64 + unat b2 mod 64)"
proof -
  define x where "x = unat b - 0xC0"
  define y where "y = unat b2 - 0x80"
  have b: "unat b = 0xC0 + x" and b2: "unat b2 = 0x80 + y"
    and x: "2 \<le> x" "x < 32" and y: "y < 64"
    using assms unfolding x_def y_def by simp_all
  have mx: "unat b mod 32 = x" using x by (simp add: b mod_add_eq [symmetric])
  have my: "unat b2 mod 64 = y" using y by (simp add: b2 mod_add_eq [symmetric])
  have d: "(x * 64 + y) div 64 = x" "(x * 64 + y) mod 64 = y" using y by simp_all
  have r: "\<not> x * 64 + y \<le> 0x7F" "x * 64 + y \<le> 0x7FF" using x y by simp_all
  have "utf8_encode_scalar (x * 64 + y) = [of_nat (x + 0xC0), of_nat (0x80 + y)]"
    using r y by (simp add: utf8_encode_scalar_def d del: of_nat_add)
  also have "\<dots> = [of_nat (unat b), of_nat (unat b2)]"
    by (simp only: b b2 add.commute)
  finally show "utf8_encode_scalar (unat b mod 32 * 64 + unat b2 mod 64) = [b, b2]"
    by (simp add: mx my)
  show "is_scalar (unat b mod 32 * 64 + unat b2 mod 64)"
    using r by (simp add: mx my is_scalar_def)
qed


lemma encode_3:
  assumes "0xE0 \<le> unat (b::byte)" "unat b \<le> 0xEF"
    and "(if unat b = 0xE0 then 0xA0 else 0x80) \<le> unat (b2::byte)"
    and "unat b2 \<le> (if unat b = 0xED then 0x9F else 0xBF)"
    and "0x80 \<le> unat (b3::byte)" "unat b3 \<le> 0xBF"
  shows "utf8_encode_scalar ((unat b mod 16 * 64 + unat b2 mod 64) * 64 + unat b3 mod 64)
           = [b, b2, b3]"
    and "is_scalar ((unat b mod 16 * 64 + unat b2 mod 64) * 64 + unat b3 mod 64)"
proof -
  define x where "x = unat b - 0xE0"
  define y where "y = unat b2 - 0x80"
  define z where "z = unat b3 - 0x80"
  have b2lo: "0x80 \<le> unat b2" using assms(3) by (simp split: if_splits)
  have b2hi: "unat b2 \<le> 0xBF" using assms(4) by (simp split: if_splits)
  have b: "unat b = 0xE0 + x" and x: "x < 16"
    using assms(1,2) unfolding x_def by simp_all
  have b2: "unat b2 = 0x80 + y" and y: "y < 64"
    using b2lo b2hi unfolding y_def by simp_all
  have b3: "unat b3 = 0x80 + z" and z: "z < 64"
    using assms(5,6) unfolding z_def by simp_all
  have lo: "x = 0 \<longrightarrow> 32 \<le> y" using assms(3) b b2 by (auto split: if_splits)
  have hi: "x = 13 \<longrightarrow> y < 32" using assms(4) b b2 by (auto split: if_splits)
  have mx: "unat b mod 16 = x" using x by (simp add: b mod_add_eq [symmetric])
  have my: "unat b2 mod 64 = y" using y by (simp add: b2 mod_add_eq [symmetric])
  have mz: "unat b3 mod 64 = z" using z by (simp add: b3 mod_add_eq [symmetric])
  define q where "q = x * 64 + y"
  define cp where "cp = q * 64 + z"
  have d1: "cp mod 64 = z" "cp div 64 = q" using z by (simp_all add: cp_def)
  have dq: "q mod 64 = y" "q div 64 = x" using y by (simp_all add: q_def)
  have d2: "cp div 64 mod 64 = y" "cp div 4096 = x"
  proof -
    show "cp div 64 mod 64 = y" by (simp add: d1 dq)
    have "cp div 4096 = cp div 64 div 64" by (simp add: div_mult2_eq [symmetric])
    then show "cp div 4096 = x" by (simp add: d1 dq)
  qed
  have q1: "32 \<le> q" using lo unfolding q_def by (cases "x = 0") simp_all
  have q2: "q \<le> 1023" using x y unfolding q_def by simp
  have q3: "q < 864 \<or> 896 \<le> q"
  proof -
    consider "x \<le> 12" | "x = 13" | "14 \<le> x" by linarith
    then show ?thesis
      using y hi unfolding q_def by cases simp_all
  qed
  have r: "\<not> cp \<le> 0x7FF" "cp \<le> 0xFFFF" "\<not> (0xD800 \<le> cp \<and> cp \<le> 0xDFFF)"
  proof -
    show "\<not> cp \<le> 0x7FF" using q1 unfolding cp_def by simp
    show "cp \<le> 0xFFFF" using q2 z unfolding cp_def by simp
    show "\<not> (0xD800 \<le> cp \<and> cp \<le> 0xDFFF)" using q3 z unfolding cp_def by auto
  qed
  have "utf8_encode_scalar cp = [of_nat (x + 0xE0), of_nat (0x80 + y), of_nat (0x80 + z)]"
    using r by (simp add: utf8_encode_scalar_def d1 d2 dq del: of_nat_add)
  also have "\<dots> = [of_nat (unat b), of_nat (unat b2), of_nat (unat b3)]"
    by (simp only: b b2 b3 add.commute)
  finally show "utf8_encode_scalar ((unat b mod 16 * 64 + unat b2 mod 64) * 64 + unat b3 mod 64)
           = [b, b2, b3]"
    by (simp only: mx my mz cp_def q_def of_nat_unat ucast_id)
  show "is_scalar ((unat b mod 16 * 64 + unat b2 mod 64) * 64 + unat b3 mod 64)"
  proof -
    have "is_scalar cp" using r by (simp add: is_scalar_def)
    then show ?thesis by (simp only: mx my mz cp_def q_def)
  qed
qed

lemma encode_4:
  assumes "0xF0 \<le> unat (b::byte)" "unat b \<le> 0xF4"
    and "(if unat b = 0xF0 then 0x90 else 0x80) \<le> unat (b2::byte)"
    and "unat b2 \<le> (if unat b = 0xF4 then 0x8F else 0xBF)"
    and "0x80 \<le> unat (b3::byte)" "unat b3 \<le> 0xBF"
    and "0x80 \<le> unat (b4::byte)" "unat b4 \<le> 0xBF"
  shows "utf8_encode_scalar
           (((unat b mod 8 * 64 + unat b2 mod 64) * 64 + unat b3 mod 64) * 64 + unat b4 mod 64)
           = [b, b2, b3, b4]"
    and "is_scalar
           (((unat b mod 8 * 64 + unat b2 mod 64) * 64 + unat b3 mod 64) * 64 + unat b4 mod 64)"
proof -
  define x where "x = unat b - 0xF0"
  define y where "y = unat b2 - 0x80"
  define z where "z = unat b3 - 0x80"
  define u where "u = unat b4 - 0x80"
  have b2lo: "0x80 \<le> unat b2" using assms(3) by (simp split: if_splits)
  have b2hi: "unat b2 \<le> 0xBF" using assms(4) by (simp split: if_splits)
  have b: "unat b = 0xF0 + x" and x: "x < 5"
    using assms(1,2) unfolding x_def by simp_all
  have b2: "unat b2 = 0x80 + y" and y: "y < 64"
    using b2lo b2hi unfolding y_def by simp_all
  have b3: "unat b3 = 0x80 + z" and z: "z < 64"
    using assms(5,6) unfolding z_def by simp_all
  have b4: "unat b4 = 0x80 + u" and u: "u < 64"
    using assms(7,8) unfolding u_def by simp_all
  have lo: "x = 0 \<longrightarrow> 16 \<le> y" using assms(3) b b2 by (auto split: if_splits)
  have hi: "x = 4 \<longrightarrow> y < 16" using assms(4) b b2 by (auto split: if_splits)
  have mx: "unat b mod 8 = x" using x by (simp add: b mod_add_eq [symmetric])
  have my: "unat b2 mod 64 = y" using y by (simp add: b2 mod_add_eq [symmetric])
  have mz: "unat b3 mod 64 = z" using z by (simp add: b3 mod_add_eq [symmetric])
  have mu: "unat b4 mod 64 = u" using u by (simp add: b4 mod_add_eq [symmetric])
  define q where "q = x * 64 + y"
  define q' where "q' = q * 64 + z"
  define cp where "cp = q' * 64 + u"
  have d1: "cp mod 64 = u" "cp div 64 = q'" using u by (simp_all add: cp_def)
  have dq': "q' mod 64 = z" "q' div 64 = q" using z by (simp_all add: q'_def)
  have dq: "q mod 64 = y" "q div 64 = x" using y by (simp_all add: q_def)
  have d2: "cp div 64 mod 64 = z" "cp div 4096 = q"
  proof -
    show "cp div 64 mod 64 = z" by (simp add: d1 dq')
    have "cp div 4096 = cp div 64 div 64" by (simp add: div_mult2_eq [symmetric])
    then show "cp div 4096 = q" by (simp add: d1 dq')
  qed
  have d3: "cp div 4096 mod 64 = y" "cp div 262144 = x"
  proof -
    show "cp div 4096 mod 64 = y" by (simp add: d2 dq)
    have "cp div 262144 = cp div 4096 div 64" by (simp add: div_mult2_eq [symmetric])
    then show "cp div 262144 = x" by (simp add: d2 dq)
  qed
  have q1: "16 \<le> q" using lo unfolding q_def by (cases "x = 0") simp_all
  have q2: "q < 272"
  proof (cases "x = 4")
    case True
    with hi show ?thesis unfolding q_def by simp
  next
    case False
    with x have "x \<le> 3" by simp
    then show ?thesis using y unfolding q_def by simp
  qed
  have q'1: "1024 \<le> q'" using q1 unfolding q'_def by simp
  have q'2: "q' < 17408" using q2 z unfolding q'_def by simp
  have r: "\<not> cp \<le> 0xFFFF" "cp < 0x110000"
  proof -
    show "\<not> cp \<le> 0xFFFF" using q'1 unfolding cp_def by simp
    show "cp < 0x110000" using q'2 u unfolding cp_def by simp
  qed
  have "utf8_encode_scalar cp
          = [of_nat (x + 0xF0), of_nat (0x80 + y), of_nat (0x80 + z), of_nat (0x80 + u)]"
    using r by (simp add: utf8_encode_scalar_def d1 d2 d3 dq dq' del: of_nat_add)
  also have "\<dots> = [of_nat (unat b), of_nat (unat b2), of_nat (unat b3), of_nat (unat b4)]"
    by (simp only: b b2 b3 b4 add.commute)
  finally show "utf8_encode_scalar
           (((unat b mod 8 * 64 + unat b2 mod 64) * 64 + unat b3 mod 64) * 64 + unat b4 mod 64)
           = [b, b2, b3, b4]"
    by (simp only: mx my mz mu cp_def q'_def q_def of_nat_unat ucast_id)
  show "is_scalar
           (((unat b mod 8 * 64 + unat b2 mod 64) * 64 + unat b3 mod 64) * 64 + unat b4 mod 64)"
  proof -
    have "is_scalar cp" using r by (simp add: is_scalar_def)
    then show ?thesis by (simp only: mx my mz mu cp_def q'_def q_def)
  qed
qed

lemma run_ascii:
  "unat b \<le> 0x7F \<Longrightarrow>
   utf8_decode_run 0 0 0 0x80 0xBF (b # bs) = unat b # utf8_decode_run 0 0 0 0x80 0xBF bs"
  by simp

lemma run_lead2:
  "0xC2 \<le> unat b \<Longrightarrow> unat b \<le> 0xDF \<Longrightarrow>
   utf8_decode_run 0 0 0 0x80 0xBF (b # bs) = utf8_decode_run (unat b mod 32) 0 1 0x80 0xBF bs"
  by simp

lemma run_lead3:
  "0xE0 \<le> unat b \<Longrightarrow> unat b \<le> 0xEF \<Longrightarrow>
   utf8_decode_run 0 0 0 0x80 0xBF (b # bs) =
     utf8_decode_run (unat b mod 16) 0 2 (if unat b = 0xE0 then 0xA0 else 0x80)
       (if unat b = 0xED then 0x9F else 0xBF) bs"
  by simp

lemma run_lead4:
  "0xF0 \<le> unat b \<Longrightarrow> unat b \<le> 0xF4 \<Longrightarrow>
   utf8_decode_run 0 0 0 0x80 0xBF (b # bs) =
     utf8_decode_run (unat b mod 8) 0 3 (if unat b = 0xF0 then 0x90 else 0x80)
       (if unat b = 0xF4 then 0x8F else 0xBF) bs"
  by simp

lemma run_invalid:
  "0x80 \<le> unat b \<Longrightarrow> unat b < 0xC2 \<or> 0xF4 < unat b \<Longrightarrow>
   utf8_decode_run 0 0 0 0x80 0xBF (b # bs) = 0xFFFD # utf8_decode_run 0 0 0 0x80 0xBF bs"
  by auto

lemma decode_sound:
  "0xFFFD \<notin> set (utf8_decode_run 0 0 0 0x80 0xBF p) \<Longrightarrow>
   concat (map utf8_encode_scalar (utf8_decode_run 0 0 0 0x80 0xBF p)) = p
   \<and> (\<forall>cp \<in> set (utf8_decode_run 0 0 0 0x80 0xBF p). is_scalar cp)"
proof (induction p rule: length_induct)
  case (1 p)
  note IH = "1.IH" [rule_format]
  show ?case
  proof (cases p)
    case Nil
    then show ?thesis by simp
  next
    case (Cons b bs)
    consider (ascii) "unat b \<le> 0x7F"
      | (two) "0xC2 \<le> unat b" "unat b \<le> 0xDF"
      | (three) "0xE0 \<le> unat b" "unat b \<le> 0xEF"
      | (four) "0xF0 \<le> unat b" "unat b \<le> 0xF4"
      | (bad) "0x80 \<le> unat b" "unat b < 0xC2 \<or> 0xF4 < unat b"
      by linarith
    then show ?thesis
    proof cases
      case ascii
      have run: "utf8_decode_run 0 0 0 0x80 0xBF p = unat b # utf8_decode_run 0 0 0 0x80 0xBF bs"
        unfolding Cons by (rule run_ascii [OF ascii])
      with "1.prems" have "0xFFFD \<notin> set (utf8_decode_run 0 0 0 0x80 0xBF bs)" by simp
      from IH [OF _ this] Cons
      have rest: "concat (map utf8_encode_scalar (utf8_decode_run 0 0 0 0x80 0xBF bs)) = bs"
        "\<forall>cp \<in> set (utf8_decode_run 0 0 0 0x80 0xBF bs). is_scalar cp"
        by simp_all
      have "utf8_encode_scalar (unat b) = [b]" "is_scalar (unat b)"
        using ascii by (simp_all add: utf8_encode_scalar_def is_scalar_def)
      with rest show ?thesis unfolding run by (simp add: Cons)
    next
      case two
      have run: "utf8_decode_run 0 0 0 0x80 0xBF p
                   = utf8_decode_run (unat b mod 32) 0 1 0x80 0xBF bs"
        unfolding Cons by (rule run_lead2 [OF two])
      with "1.prems" have "0xFFFD \<notin> set (utf8_decode_run (unat b mod 32) 0 1 0x80 0xBF bs)"
        by simp
      from run_continue [OF this]
      obtain b2 bs' where bs: "bs = b2 # bs'" and b2: "0x80 \<le> unat b2" "unat b2 \<le> 0xBF"
        and run2: "utf8_decode_run (unat b mod 32) 0 1 0x80 0xBF bs
                     = (unat b mod 32 * 64 + unat b2 mod 64) # utf8_decode_run 0 0 0 0x80 0xBF bs'"
        by auto
      from "1.prems" run run2 have "0xFFFD \<notin> set (utf8_decode_run 0 0 0 0x80 0xBF bs')"
        by simp
      from IH [OF _ this] Cons bs
      have rest: "concat (map utf8_encode_scalar (utf8_decode_run 0 0 0 0x80 0xBF bs')) = bs'"
        "\<forall>cp \<in> set (utf8_decode_run 0 0 0 0x80 0xBF bs'). is_scalar cp"
        by simp_all
      from encode_2 [OF two b2] rest show ?thesis
        unfolding run run2 by (simp add: Cons bs)
    next
      case three
      let ?lo = "if unat b = 0xE0 then 0xA0 else 0x80"
      let ?hi = "if unat b = 0xED then 0x9F else 0xBF"
      have run: "utf8_decode_run 0 0 0 0x80 0xBF p = utf8_decode_run (unat b mod 16) 0 2 ?lo ?hi bs"
        unfolding Cons by (rule run_lead3 [OF three])
      with "1.prems" have "0xFFFD \<notin> set (utf8_decode_run (unat b mod 16) 0 2 ?lo ?hi bs)"
        by simp
      from run_continue [OF this]
      obtain b2 bs' where bs: "bs = b2 # bs'" and b2: "?lo \<le> unat b2" "unat b2 \<le> ?hi"
        and run2: "utf8_decode_run (unat b mod 16) 0 2 ?lo ?hi bs
                     = utf8_decode_run (unat b mod 16 * 64 + unat b2 mod 64) 1 2 0x80 0xBF bs'"
        by auto
      from "1.prems" run run2
      have "0xFFFD \<notin> set (utf8_decode_run (unat b mod 16 * 64 + unat b2 mod 64) 1 2 0x80 0xBF bs')"
        by simp
      from run_continue [OF this]
      obtain b3 bs'' where bs': "bs' = b3 # bs''" and b3: "0x80 \<le> unat b3" "unat b3 \<le> 0xBF"
        and run3: "utf8_decode_run (unat b mod 16 * 64 + unat b2 mod 64) 1 2 0x80 0xBF bs'
                     = ((unat b mod 16 * 64 + unat b2 mod 64) * 64 + unat b3 mod 64)
                       # utf8_decode_run 0 0 0 0x80 0xBF bs''"
        by auto
      from "1.prems" run run2 run3 have "0xFFFD \<notin> set (utf8_decode_run 0 0 0 0x80 0xBF bs'')"
        by simp
      from IH [OF _ this] Cons bs bs'
      have rest: "concat (map utf8_encode_scalar (utf8_decode_run 0 0 0 0x80 0xBF bs'')) = bs''"
        "\<forall>cp \<in> set (utf8_decode_run 0 0 0 0x80 0xBF bs''). is_scalar cp"
        by simp_all
      from encode_3 [OF three b2 b3] rest show ?thesis
        unfolding run run2 run3 by (simp add: Cons bs bs')
    next
      case four
      let ?lo = "if unat b = 0xF0 then 0x90 else 0x80"
      let ?hi = "if unat b = 0xF4 then 0x8F else 0xBF"
      have run: "utf8_decode_run 0 0 0 0x80 0xBF p = utf8_decode_run (unat b mod 8) 0 3 ?lo ?hi bs"
        unfolding Cons by (rule run_lead4 [OF four])
      with "1.prems" have "0xFFFD \<notin> set (utf8_decode_run (unat b mod 8) 0 3 ?lo ?hi bs)"
        by simp
      from run_continue [OF this]
      obtain b2 bs' where bs: "bs = b2 # bs'" and b2: "?lo \<le> unat b2" "unat b2 \<le> ?hi"
        and run2: "utf8_decode_run (unat b mod 8) 0 3 ?lo ?hi bs
                     = utf8_decode_run (unat b mod 8 * 64 + unat b2 mod 64) 1 3 0x80 0xBF bs'"
        by auto
      from "1.prems" run run2
      have "0xFFFD \<notin> set (utf8_decode_run (unat b mod 8 * 64 + unat b2 mod 64) 1 3 0x80 0xBF bs')"
        by simp
      from run_continue [OF this]
      obtain b3 bs'' where bs': "bs' = b3 # bs''" and b3: "0x80 \<le> unat b3" "unat b3 \<le> 0xBF"
        and run3: "utf8_decode_run (unat b mod 8 * 64 + unat b2 mod 64) 1 3 0x80 0xBF bs'
                     = utf8_decode_run ((unat b mod 8 * 64 + unat b2 mod 64) * 64 + unat b3 mod 64)
                         2 3 0x80 0xBF bs''"
        by (auto simp: numeral_2_eq_2)
      from "1.prems" run run2 run3
      have "0xFFFD \<notin> set (utf8_decode_run
              ((unat b mod 8 * 64 + unat b2 mod 64) * 64 + unat b3 mod 64) 2 3 0x80 0xBF bs'')"
        by simp
      from run_continue [OF this]
      obtain b4 bs3 where bs'': "bs'' = b4 # bs3" and b4: "0x80 \<le> unat b4" "unat b4 \<le> 0xBF"
        and run4: "utf8_decode_run
                     ((unat b mod 8 * 64 + unat b2 mod 64) * 64 + unat b3 mod 64) 2 3 0x80 0xBF bs''
                   = (((unat b mod 8 * 64 + unat b2 mod 64) * 64 + unat b3 mod 64) * 64
                        + unat b4 mod 64) # utf8_decode_run 0 0 0 0x80 0xBF bs3"
        by auto
      from "1.prems" run run2 run3 run4
      have "0xFFFD \<notin> set (utf8_decode_run 0 0 0 0x80 0xBF bs3)"
        by simp
      from IH [OF _ this] Cons bs bs' bs''
      have rest: "concat (map utf8_encode_scalar (utf8_decode_run 0 0 0 0x80 0xBF bs3)) = bs3"
        "\<forall>cp \<in> set (utf8_decode_run 0 0 0 0x80 0xBF bs3). is_scalar cp"
        by simp_all
      from encode_4 [OF four b2 b3 b4] rest show ?thesis
        unfolding run run2 run3 run4 by (simp add: Cons bs bs' bs'')
    next
      case bad
      from run_invalid [OF bad] "1.prems" show ?thesis by (simp add: Cons)
    qed
  qed
qed

lemma replacement_survives:
  assumes "0xFFFD \<in> set (utf8_decode_run 0 0 0 0x80 0xBF p)"
  shows "0xFFFD \<in> set (TextDecoder_decode p)"
proof -
  have one: "utf16_of_scalar 0xFFFD = [0xFFFD]" by (simp add: utf16_of_scalar_def)
  have keep: "0xFFFD \<in> set (concat (map utf16_of_scalar cps))" if "0xFFFD \<in> set cps" for cps
    using that one by (induction cps) auto
  show ?thesis
  proof (cases "utf8_decode_run 0 0 0 0x80 0xBF p")
    case Nil
    with assms show ?thesis by simp
  next
    case (Cons c rest)
    show ?thesis
    proof (cases "c = 0xFEFF")
      case True
      with assms Cons have "0xFFFD \<in> set rest" by simp
      from keep [OF this] True Cons show ?thesis by (simp add: TextDecoder_decode_def)
    next
      case False
      from keep [OF assms] False Cons show ?thesis by (simp add: TextDecoder_decode_def)
    qed
  qed
qed

lemma invalid_utf8_replaced:
  assumes "\<not> (\<exists>cps. (\<forall>cp \<in> set cps. is_scalar cp) \<and> p = concat (map utf8_encode_scalar cps))"
  shows "0xFFFD \<in> set (TextDecoder_decode p)"
proof (rule replacement_survives, rule ccontr)
  assume "0xFFFD \<notin> set (utf8_decode_run 0 0 0 0x80 0xBF p)"
  from decode_sound [OF this] assms show False by metis
qed

lemma text_roundtrip_well_formed:
  assumes "well_formed_utf16 content"
    and "length (elems (TextEncoder_encode content)) \<le> 2 ^ 39 - 256"
    and "length (elems (TextEncoder_encode content)) + 44 \<le> max_arguments"
  shows "text_roundtrip max_arguments content w w r
           = Inr (case content of [] \<Rightarrow> [] | c # s' \<Rightarrow> if c = 0xFEFF then s' else content)"
  using text_roundtrip_same [OF assms(2) assms(3)] text_codec_roundtrip [OF assms(1)] by simp

section \<open>The claims\<close>

subsection \<open>Round trip\<close>

text \<open>
  Claim C1. For every plaintext and password, decrypting what encrypting produced, with
  the same password, returns exactly the plaintext.

  For images it does (\<open>image_roundtrip_same\<close>). For text, \<^verbatim>\<open>decryptContent\<close> returns
  the decoding of the encoding of the content (\<open>text_roundtrip_same\<close>): that is the
  content when it has no lone surrogate and does not start with U+FEFF
  (\<open>text_roundtrip_well_formed\<close>), but \<^verbatim>\<open>new TextDecoder()\<close> drops a byte order mark at
  the start. The content \<^verbatim>\<open>"\uFEFFhi"\<close> comes back as \<^verbatim>\<open>"hi"\<close>, for every password and
  every salt and nonce, in every engine whose calls take the 49 bytes of its envelope
  as arguments.
\<close>

theorem text_roundtrip_drops_bom:
  assumes "49 \<le> max_arguments"
  shows "text_roundtrip max_arguments [0xFEFF, 0x68, 0x69] w w r = Inr [0x68, 0x69]
   \<and> text_roundtrip max_arguments [0xFEFF, 0x68, 0x69] w w r \<noteq> Inr [0xFEFF, 0x68, 0x69]"
proof -
  have enc: "elems (TextEncoder_encode [0xFEFF, 0x68, 0x69]) = [0xEF, 0xBB, 0xBF, 0x68, 0x69]"
    by (simp add: text_codec_defs)
  have dec: "TextDecoder_decode [0xEF, 0xBB, 0xBF, 0x68, 0x69] = [0x68, 0x69]"
    by (simp add: text_codec_defs)
  show ?thesis
    using assms text_roundtrip_same [of "[0xFEFF, 0x68, 0x69]" max_arguments w r]
    by (simp add: enc dec)
qed

theorem text_roundtrip_drops_bom_witness:
  "text_roundtrip 65536 [0xFEFF, 0x68, 0x69] (js_of_string ''pw'') (js_of_string ''pw'')
     (rng_of_list [1, 2, 3]) = Inr [0x68, 0x69]"
  using text_roundtrip_drops_bom [of 65536 "js_of_string ''pw''" "rng_of_list [1, 2, 3]"]
  by simp

subsection \<open>Envelope layout\<close>

text \<open>
  Claim C2. Every envelope that \<^verbatim>\<open>encryptImage\<close> returns, and the bytes that every
  base64 string returned by \<^verbatim>\<open>encryptContent\<close> decodes to, consist of the salt in bytes
  0 to 15, the nonce in bytes 16 to 27, and from byte 28 the ciphertext, as long as the
  plaintext, followed by the tag of 16 bytes: the plaintext length plus 44 bytes in all.
  \<^verbatim>\<open>decryptImage\<close> and \<^verbatim>\<open>decryptContent\<close> cut their input at the same offsets. (An
  image is at most \<open>2\<^sup>3\<^sup>9 - 256\<close> bytes, the limit of AES-GCM: beyond it there is no
  envelope. For a content the statement is about the string that \<^verbatim>\<open>encryptContent\<close>
  returns, whenever it returns one.)
\<close>

theorem envelope_layout_fixed:
  assumes "length (elems img) \<le> 2 ^ 39 - 256"
    and "fst (encryptContent max_arguments content w r) = Inr s"
  shows
    "(\<exists>env. fst (encryptImage img w r) = Inr env
          \<and> envelope_layout (elems env) w r (elems img))
     \<and> (\<exists>d. atob s = Inr d
          \<and> envelope_layout (elems (Uint8Array_from_string d)) w r
                (elems (TextEncoder_encode content)))
     \<and> decryptImage_try env' w' =
         (case subtle_decrypt_AES_GCM (take 12 (drop 16 (elems env')))
                 (derived_key w' (take 16 (elems env'))) (drop 28 (elems env')) of
            Inl e \<Rightarrow> Inl e
          | Inr p \<Rightarrow> Inr (Uint8Array_of p))
     \<and> decryptContent_try s' w' =
         (case atob s' of
            Inl e \<Rightarrow> Inl e
          | Inr d \<Rightarrow>
              (case subtle_decrypt_AES_GCM
                      (take 12 (drop 16 (elems (Uint8Array_from_string d))))
                      (derived_key w' (take 16 (elems (Uint8Array_from_string d))))
                      (drop 28 (elems (Uint8Array_from_string d))) of
                 Inl e \<Rightarrow> Inl e
               | Inr p \<Rightarrow> Inr (TextDecoder_decode p)))"
proof -
  have layout: "envelope_layout (drawn_salt r @ drawn_iv r @ sealed w r p) w r p" for p
  proof -
    obtain c t where ae: "gcm_ae (password_key w (drawn_salt r)) (drawn_iv r) p [] 16 = (c, t)"
      by (cases "gcm_ae (password_key w (drawn_salt r)) (drawn_iv r) p [] 16")
    from gcm_ae_lengths [OF ae] show ?thesis
      by (simp add: envelope_layout_def sealed_def ae)
  qed
  have image_case: "\<exists>env. fst (encryptImage img w r) = Inr env
                 \<and> envelope_layout (elems env) w r (elems img)"
    using assms(1) layout [of "elems img"] by (simp add: encryptImage_value Uint8Array_of_def)
  have content_case: "\<exists>d. atob s = Inr d
                 \<and> envelope_layout (elems (Uint8Array_from_string d)) w r
                       (elems (TextEncoder_encode content))"
    using layout [of "elems (TextEncoder_encode content)"]
    by (simp add: encryptContent_returns(1) [OF assms(2)] atob_b64_encode
        elems_from_string_fromCharCode)
  show ?thesis
    using image_case content_case decryptImage_try_value [of env' w'] decryptContent_try_value [of s' w']
    by blast
qed

theorem envelope_layout_fixed_witness:
  "(\<exists>env. fst (encryptImage (Uint8Array_of [0x89, 0x50, 0x4E]) (js_of_string ''img-pass'')
              (rng_of_list [1, 2, 3])) = Inr env
         \<and> envelope_layout (elems env) (js_of_string ''img-pass'') (rng_of_list [1, 2, 3])
              [0x89, 0x50, 0x4E])
   \<and> (\<exists>s d. fst (encryptContent 65536 (js_of_string ''hello world'')
                (js_of_string ''img-pass'') (rng_of_list [1, 2, 3])) = Inr s \<and> atob s = Inr d
         \<and> envelope_layout (elems (Uint8Array_from_string d)) (js_of_string ''img-pass'')
              (rng_of_list [1, 2, 3]) (elems (TextEncoder_encode (js_of_string ''hello world''))))"
proof -
  let ?s = "b64_encode (drawn_salt (rng_of_list [1, 2, 3]) @ drawn_iv (rng_of_list [1, 2, 3])
              @ sealed (js_of_string ''img-pass'') (rng_of_list [1, 2, 3])
                  (elems (TextEncoder_encode (js_of_string ''hello world''))))"
  have 1: "length (elems (Uint8Array_of [0x89, 0x50, 0x4E])) \<le> 2 ^ 39 - 256"
    by (simp add: Uint8Array_of_def)
  have 2: "fst (encryptContent 65536 (js_of_string ''hello world'') (js_of_string ''img-pass'')
             (rng_of_list [1, 2, 3])) = Inr ?s"
    by (simp add: encryptContent_value text_codec_defs)
  have 3: "elems (Uint8Array_of [0x89, 0x50, 0x4E]) = [0x89, 0x50, 0x4E]"
    by (simp add: Uint8Array_of_def)
  show ?thesis
    using envelope_layout_fixed [OF 1 2] 2
    by (simp only: 3) blast
qed

subsection \<open>Key derivation\<close>

text \<open>
  Claim C7. For every password and salt, \<^verbatim>\<open>deriveKey\<close> succeeds with a key whose
  material is PBKDF2 over HMAC-SHA-256 of the UTF-8 password and the salt at exactly
  100000 iterations, 32 bytes (256 bits) long; the key is an AES-GCM key of length 256,
  not extractable, with the usages encrypt and decrypt only, so it is refused as a base
  key for a further derivation. The key is a function of the password and the salt
  alone: identical inputs yield the identical key.
\<close>

theorem deriveKey_pbkdf2_aes256:
  "deriveKey password salt =
     Inr \<lparr>extractable = False, algorithm = AES_GCM 256, usages = [Encrypt, Decrypt],
          handle = pbkdf2 (hmac sha256 64) 32 (elems (TextEncoder_encode password)) salt
                     100000 32\<rparr>
   \<and> 8 * length (pbkdf2 (hmac sha256 64) 32 (elems (TextEncoder_encode password)) salt
                    100000 32) = 256
   \<and> (case deriveKey password salt of
        Inl e \<Rightarrow> False
      | Inr key \<Rightarrow>
          subtle_deriveKey_PBKDF2_AES_GCM salt' iterations h key len ext us
            = Inl (DOMException InvalidAccessError))"
proof -
  have "hmac sha256 64 = hmac_sha256" by (simp add: hmac_sha256_def)
  then show ?thesis
    using length_pbkdf2_hmac_sha256 [of "elems (TextEncoder_encode password)" salt 100000 32]
    by (simp add: derived_key_def password_key_def subtle_deriveKey_PBKDF2_AES_GCM_def)
qed

theorem deriveKey_pbkdf2_aes256_witness:
  "deriveKey (js_of_string ''correct horse'') (replicate 16 7) =
     Inr \<lparr>extractable = False, algorithm = AES_GCM 256, usages = [Encrypt, Decrypt],
          handle = pbkdf2 (hmac sha256 64) 32
                     (elems (TextEncoder_encode (js_of_string ''correct horse'')))
                     (replicate 16 7) 100000 32\<rparr>"
  using deriveKey_pbkdf2_aes256 [of "js_of_string ''correct horse''" "replicate 16 7"]
  by (rule conjunct1)

subsection \<open>Failures of decryption\<close>

text \<open>
  Claim C4. Whatever makes a decrypt operation fail (a malformed base64 string, an
  envelope that is too short, a tag that does not verify, or anything else thrown
  inside the \<^verbatim>\<open>try\<close> block), the caller gets a plain \<^verbatim>\<open>Error\<close> with one fixed message
  per operation, the same for all causes: no \<^verbatim>\<open>DOMException\<close> of the platform gets
  through. The messages of the two operations differ by the word \<^verbatim>\<open>Image\<close> only, which
  tells the operation and not the cause; the name of the exception is \<^verbatim>\<open>Error\<close> in both.
\<close>

theorem decrypt_failure_uniform:
  "(decryptContent s w = Inl e \<longrightarrow>
      e = Error ''Decryption failed. Incorrect password or corrupted data.'')
   \<and> (decryptImage b w' = Inl e' \<longrightarrow>
      e' = Error ''Image decryption failed. Incorrect password or corrupted data.'')
   \<and> (decryptContent s w = Inl e \<and> decryptImage b w' = Inl e' \<longrightarrow>
      exn_name e = ''Error'' \<and> exn_name e' = exn_name e)
   \<and> (decryptContent_try s w = Inl x \<longrightarrow>
      decryptContent s w = Inl (Error ''Decryption failed. Incorrect password or corrupted data.''))
   \<and> (decryptImage_try b w' = Inl x' \<longrightarrow>
      decryptImage b w'
        = Inl (Error ''Image decryption failed. Incorrect password or corrupted data.''))
   \<and> (atob s = Inl y \<longrightarrow>
      decryptContent s w = Inl (Error ''Decryption failed. Incorrect password or corrupted data.''))"
proof -
  have 1: "decryptContent s w = Inl e \<longrightarrow>
      e = Error ''Decryption failed. Incorrect password or corrupted data.''"
    by (simp add: decryptContent_def split: sum.splits)
  have 2: "decryptImage b w' = Inl e' \<longrightarrow>
      e' = Error ''Image decryption failed. Incorrect password or corrupted data.''"
    by (simp add: decryptImage_def split: sum.splits)
  have 3: "decryptContent s w = Inl e \<and> decryptImage b w' = Inl e' \<longrightarrow>
      exn_name e = ''Error'' \<and> exn_name e' = exn_name e"
    using 1 2 by (auto simp: exn_name_def)
  have 4: "decryptContent_try s w = Inl x \<longrightarrow>
      decryptContent s w = Inl (Error ''Decryption failed. Incorrect password or corrupted data.'')"
    by (simp add: decryptContent_def)
  have 5: "decryptImage_try b w' = Inl x' \<longrightarrow>
      decryptImage b w'
        = Inl (Error ''Image decryption failed. Incorrect password or corrupted data.'')"
    by (simp add: decryptImage_def)
  have 6: "atob s = Inl y \<longrightarrow>
      decryptContent s w = Inl (Error ''Decryption failed. Incorrect password or corrupted data.'')"
    by (simp add: decryptContent_def decryptContent_try_def)
  from 1 2 3 4 5 6 show ?thesis by blast
qed

theorem decrypt_failure_uniform_witness:
  "decryptContent_try (js_of_string ''not base64!'') (js_of_string ''pw'')
     = Inl (DOMException InvalidCharacterError)
   \<and> decryptContent (js_of_string ''not base64!'') (js_of_string ''pw'')
     = Inl (Error ''Decryption failed. Incorrect password or corrupted data.'')
   \<and> decryptImage_try (Uint8Array_of [1, 2, 3]) (js_of_string ''pw'')
     = Inl (DOMException OperationError)
   \<and> decryptImage (Uint8Array_of [1, 2, 3]) (js_of_string ''pw'')
     = Inl (Error ''Image decryption failed. Incorrect password or corrupted data.'')"
proof -
  have 1: "atob (js_of_string ''not base64!'') = Inl (DOMException InvalidCharacterError)"
    by (simp add: atob_defs)
  then have 2: "decryptContent_try (js_of_string ''not base64!'') (js_of_string ''pw'')
                  = Inl (DOMException InvalidCharacterError)"
    by (simp add: decryptContent_try_def)
  have 3: "decryptImage_try (Uint8Array_of [1, 2, 3]) (js_of_string ''pw'')
             = Inl (DOMException OperationError)"
    by (simp add: decryptImage_try_value subtle_decrypt_derived Uint8Array_of_def)
  show ?thesis
    using 2 3
      decrypt_failure_uniform [where s = "js_of_string ''not base64!''"
        and w = "js_of_string ''pw''" and b = "Uint8Array_of [1, 2, 3]"
        and w' = "js_of_string ''pw''" and x = "DOMException InvalidCharacterError"
        and x' = "DOMException OperationError"]
    by blast
qed

text \<open>
  Claim C5. An image envelope of less than 28 bytes, and a text envelope that decodes
  to less than 28 bytes, fail to decrypt with the generic error, for every password.
  Nothing is read out of bounds and nothing is returned: the slices are cut short, the
  ciphertext is empty, and \<^verbatim>\<open>crypto.subtle.decrypt\<close> rejects it with an
  \<^verbatim>\<open>OperationError\<close>, which the \<^verbatim>\<open>catch\<close> clause replaces.
\<close>

theorem truncated_envelope_fails:
  "(length (elems b) < 28 \<longrightarrow>
      decryptImage_try b w = Inl (DOMException OperationError)
      \<and> decryptImage b w
          = Inl (Error ''Image decryption failed. Incorrect password or corrupted data.''))
   \<and> (atob s = Inr d \<and> length d < 28 \<longrightarrow>
      decryptContent_try s w = Inl (DOMException OperationError)
      \<and> decryptContent s w
          = Inl (Error ''Decryption failed. Incorrect password or corrupted data.''))"
  by (simp add: decryptImage_def decryptContent_def decryptImage_try_value
      decryptContent_try_value subtle_decrypt_derived Uint8Array_from_string_def
      Uint8Array_of_def)

theorem truncated_envelope_fails_witness:
  "decryptImage (Uint8Array_of (replicate 27 0)) (js_of_string ''pw'')
     = Inl (Error ''Image decryption failed. Incorrect password or corrupted data.'')
   \<and> decryptContent (js_of_string ''AAAA'') (js_of_string ''pw'')
     = Inl (Error ''Decryption failed. Incorrect password or corrupted data.'')"
proof -
  have 1: "length (elems (Uint8Array_of (replicate 27 0))) < 28"
    by (simp add: Uint8Array_of_def)
  have 2: "atob (js_of_string ''AAAA'') = Inr [0, 0, 0]"
    by (simp add: atob_defs)
  show ?thesis
    using 1 2
      truncated_envelope_fails [where b = "Uint8Array_of (replicate 27 0)"
        and w = "js_of_string ''pw''" and s = "js_of_string ''AAAA''" and d = "[0, 0, 0]"]
    by simp
qed

subsection \<open>Encryption of a long note\<close>

text \<open>
  Claim C9. Encrypting a well-formed input, any content and any image with any
  password, succeeds.

  \<^verbatim>\<open>encryptImage\<close> does, up to the limit of AES-GCM, and so does \<^verbatim>\<open>encryptContent\<close> for
  the empty content and for every content whose envelope has no more bytes than a call
  takes arguments (\<open>encrypt_within_limits\<close>, \<open>encrypt_empty\<close>). But \<^verbatim>\<open>encryptContent\<close>
  ends with \<^verbatim>\<open>btoa(String.fromCharCode(...combined))\<close>, which passes every byte of the
  envelope as an argument: for a content whose UTF-8 encoding and the 44 bytes around
  it are more than that, it throws a \<^verbatim>\<open>RangeError\<close> after the encryption is done.
  \<^verbatim>\<open>encryptImage\<close>, which returns the typed array itself, encrypts the same bytes. A
  note of 200000 letters \<^verbatim>\<open>a\<close> fails in an engine that takes 65536 arguments.
\<close>

theorem encryptContent_long_content_throws:
  assumes "max_arguments < length (elems (TextEncoder_encode content)) + 44"
    and "length (elems (TextEncoder_encode content)) \<le> 2 ^ 39 - 256"
  shows "fst (encryptContent max_arguments content w r) = Inl RangeError
    \<and> (\<exists>env. fst (encryptImage (TextEncoder_encode content) w r) = Inr env
          \<and> length (elems env) = length (elems (TextEncoder_encode content)) + 44)"
  using assms by (simp add: encryptContent_value encryptImage_value Uint8Array_of_def)

theorem encryptContent_long_content_throws_witness:
  "fst (encryptContent 65536 (replicate 200000 0x61) (js_of_string ''pw'')
          (rng_of_list [7, 8, 9])) = Inl RangeError
   \<and> (\<exists>env. fst (encryptImage (TextEncoder_encode (replicate 200000 0x61)) (js_of_string ''pw'')
                 (rng_of_list [7, 8, 9])) = Inr env
          \<and> length (elems env) = 200044)"
proof -
  have n: "length (elems (TextEncoder_encode (replicate 200000 0x61))) = 200000"
    by (simp only: TextEncoder_replicate_ascii length_replicate)
  have 1: "65536 < length (elems (TextEncoder_encode (replicate 200000 0x61))) + 44"
    by (simp add: n)
  have 2: "length (elems (TextEncoder_encode (replicate 200000 0x61))) \<le> 2 ^ 39 - 256"
    by (simp add: n)
  have 3: "length (elems (TextEncoder_encode (replicate 200000 0x61))) + 44 = 200044"
    by (simp add: n)
  show ?thesis
    using encryptContent_long_content_throws [OF 1 2, of "js_of_string ''pw''"
        "rng_of_list [7, 8, 9]"]
    by (simp only: 3)
qed

subsection \<open>Plaintext that is not UTF-8\<close>

text \<open>
  Claim C10. When the authenticated decryption inside \<^verbatim>\<open>decryptContent\<close> succeeds,
  \<^verbatim>\<open>decryptContent\<close> succeeds, whatever the plaintext bytes are: they are decoded in
  replacement mode. In particular the envelope of an image, written in base64 and
  decrypted as text with the same password, gives the decoding of the image bytes.
  Bytes that are not the UTF-8 encoding of any sequence of scalar values decode to a
  string that contains U+FFFD; a byte from 0x80 on that stands alone is decoded to
  U+FFFD, and the bytes 0x89 0x50 0x4E to U+FFFD followed by \<^verbatim>\<open>PN\<close>.
\<close>

theorem decryptContent_decodes_any_bytes:
  "(atob s = Inr d
      \<and> subtle_decrypt_AES_GCM (take 12 (drop 16 (elems (Uint8Array_from_string d))))
            (derived_key w (take 16 (elems (Uint8Array_from_string d))))
            (drop 28 (elems (Uint8Array_from_string d))) = Inr p
      \<longrightarrow> decryptContent s w = Inr (TextDecoder_decode p))
   \<and> (length (elems img) \<le> 2 ^ 39 - 256 \<longrightarrow>
      image_read_as_text img w r = Inr (TextDecoder_decode (elems img)))
   \<and> (\<not> (\<exists>cps. (\<forall>cp \<in> set cps. is_scalar cp) \<and> p' = concat (map utf8_encode_scalar cps))
      \<longrightarrow> 0xFFFD \<in> set (TextDecoder_decode p'))
   \<and> (0x80 \<le> unat b \<longrightarrow> TextDecoder_decode [b] = [0xFFFD])
   \<and> TextDecoder_decode [0x89, 0x50, 0x4E] = [0xFFFD, 0x50, 0x4E]"
proof -
  have "decryptContent (b64_encode (drawn_salt r @ drawn_iv r @ sealed w r (elems img))) w
          = Inr (TextDecoder_decode (elems img))"
    by (simp add: decryptContent_def decryptContent_try_value atob_b64_encode
        elems_from_string_fromCharCode subtle_decrypt_sealed)
  then have image_case: "length (elems img) \<le> 2 ^ 39 - 256 \<longrightarrow>
      image_read_as_text img w r = Inr (TextDecoder_decode (elems img))"
    by (simp add: image_read_as_text_def encryptImage_value Uint8Array_of_def btoa_fromCharCode)
  have png: "TextDecoder_decode [0x89, 0x50, 0x4E] = [0xFFFD, 0x50, 0x4E]"
    by (simp add: text_codec_defs)
  have any: "atob s = Inr d
      \<and> subtle_decrypt_AES_GCM (take 12 (drop 16 (elems (Uint8Array_from_string d))))
            (derived_key w (take 16 (elems (Uint8Array_from_string d))))
            (drop 28 (elems (Uint8Array_from_string d))) = Inr p
      \<longrightarrow> decryptContent s w = Inr (TextDecoder_decode p)"
    by (simp add: decryptContent_def decryptContent_try_value)
  from any image_case png invalid_utf8_replaced [of p'] TextDecoder_lone_byte [of b]
  show ?thesis by blast
qed

theorem decryptContent_decodes_any_bytes_witness:
  "image_read_as_text (Uint8Array_of [0x89, 0x50, 0x4E]) (js_of_string ''img-pass'')
     (rng_of_list [1, 2, 3]) = Inr [0xFFFD, 0x50, 0x4E]
   \<and> TextDecoder_decode [0xFF] = [0xFFFD]"
proof -
  have 1: "length (elems (Uint8Array_of [0x89, 0x50, 0x4E])) \<le> 2 ^ 39 - 256"
    by (simp add: Uint8Array_of_def)
  have 2: "elems (Uint8Array_of [0x89, 0x50, 0x4E]) = [0x89, 0x50, 0x4E]"
    by (simp add: Uint8Array_of_def)
  have 3: "0x80 \<le> unat (0xFF :: byte)" by simp
  from decryptContent_decodes_any_bytes [where img = "Uint8Array_of [0x89, 0x50, 0x4E]"
      and w = "js_of_string ''img-pass''" and r = "rng_of_list [1, 2, 3]" and b = "0xFF"] 1 3
  show ?thesis by (simp add: 2)
qed

end
